theory Spec2Isabelle
  imports Main
begin

section \<open>Python values and exceptions\<close>

text \<open>
  The values that travel over XML-RPC and come out of a JSON document: \<open>None\<close>, booleans,
  integers, strings, lists and dictionaries with string keys.
\<close>

datatype pyval =
    PNone
  | PBool bool
  | PInt int
  | PStr string
  | PList "pyval list"
  | PDict "(string \<times> pyval) list"

text \<open>The exceptions that the two programs can meet, by their Python class.\<close>

datatype exn =
    StopIteration
  | SyntaxError string
  | KeyError string
  | TypeError string
  | IndexError string
  | ParseError
  | RequestException string
  | JSONDecodeError

section \<open>The client: \<open>notebook_client.py\<close>\<close>

subsection \<open>Server list and round robin\<close>

text \<open>An f-string prints a non-negative integer in decimal.\<close>

definition digit :: "nat \<Rightarrow> char" where
  "digit d = ''0123456789'' ! d"

fun decimal :: "nat \<Rightarrow> string" where
  "decimal n = (if n < 10 then [digit n] else decimal (n div 10) @ [digit (n mod 10)])"

declare decimal.simps [simp del]

definition ports :: "nat list" where
  "ports = [8000, 8001]"

definition server_urls :: "string list" where
  "server_urls = map (\<lambda>port. ''http://localhost:'' @ decimal port) ports"

text \<open>
  \<open>server_cycle = itertools.cycle(server_urls)\<close> is a module-level iterator. Its state is the
  number of items taken from it so far: the item number \<open>k\<close> (from 0) is
  \<open>server_urls[k mod N]\<close>. On an empty list \<open>next\<close> raises \<open>StopIteration\<close>, here \<open>None\<close>.
\<close>

definition cycle_next :: "string list \<Rightarrow> nat \<Rightarrow> (string \<times> nat) option" where
  "cycle_next urls k = (if urls = [] then None else Some (urls ! (k mod length urls), Suc k))"

subsection \<open>The remote side\<close>

text \<open>
  \<open>getattr(proxy, method)(*args)\<close> on a proxy for \<open>url\<close> is the only place where the client
  talks to the network. What answers is not part of the client, so it is a parameter: given the
  URL, the method name, the arguments and the state of the world, it gives back either the text
  of the exception that the \<open>try\<close> block catches (\<open>Inl\<close>) or the result of the call (\<open>Inr\<close>),
  and the new state of the world. The pool's URLs all have the form \<open>http://localhost:port\<close>,
  for which building the proxy itself (line 30, outside the \<open>try\<close>) does not raise.
\<close>

type_synonym 'w transport = "string \<Rightarrow> string \<Rightarrow> pyval list \<Rightarrow> 'w \<Rightarrow> (string + pyval) \<times> 'w"

text \<open>
  What the client owns between two calls: the position of \<open>server_cycle\<close>, the lines printed
  so far, and the world behind the network.
\<close>

record 'w client =
  server_cycle :: nat
  printed :: "string list"
  network :: 'w

definition error_line :: "string \<Rightarrow> string \<Rightarrow> string" where
  "error_line url e = ''Error contacting server '' @ url @ '': '' @ e"

definition all_failed_line :: string where
  "all_failed_line = ''All servers failed.''"

subsection \<open>\<open>perform_rpc\<close>\<close>

text \<open>
  The \<open>for _ in range(len(server_urls))\<close> loop with \<open>n\<close> rounds left. \<open>Some r\<close> is a
  \<open>return\<close> (or an exception that leaves the function) from inside the loop, \<open>None\<close> is the
  loop running to its end.
\<close>

fun perform_rpc_loop ::
  "string list \<Rightarrow> 'w transport \<Rightarrow> string \<Rightarrow> pyval list \<Rightarrow> nat \<Rightarrow> 'w client
    \<Rightarrow> (exn + pyval) option \<times> 'w client" where
  "perform_rpc_loop urls call method args 0 c = (None, c)"
| "perform_rpc_loop urls call method args (Suc n) c =
    (case cycle_next urls (server_cycle c) of
      None \<Rightarrow> (Some (Inl StopIteration), c)
    | Some (url, k) \<Rightarrow>
        (case call url method args (network c) of
          (Inr result, w) \<Rightarrow> (Some (Inr result), c\<lparr>server_cycle := k, network := w\<rparr>)
        | (Inl e, w) \<Rightarrow>
            perform_rpc_loop urls call method args n
              (c\<lparr>server_cycle := k, network := w,
                 printed := printed c @ [error_line url e]\<rparr>)))"

definition perform_rpc ::
  "string list \<Rightarrow> 'w transport \<Rightarrow> string \<Rightarrow> pyval list \<Rightarrow> 'w client
    \<Rightarrow> (exn + pyval) \<times> 'w client" where
  "perform_rpc urls call method args c =
    (case perform_rpc_loop urls call method args (length urls) c of
      (Some r, c') \<Rightarrow> (r, c')
    | (None, c') \<Rightarrow> (Inr PNone, c'\<lparr>printed := printed c' @ [all_failed_line]\<rparr>))"

subsection \<open>Recording what the client does\<close>

text \<open>
  A transport wrapped so that the world also keeps the list of the attempts made on it, each
  with the URL contacted and the answer given. The answers and the underlying world are those
  of the wrapped transport.
\<close>

definition traced :: "'w transport \<Rightarrow> ('w \<times> (string \<times> (string + pyval)) list) transport" where
  "traced call url method args =
    (\<lambda>(w, tr). case call url method args w of (r, w') \<Rightarrow> (r, (w', tr @ [(url, r)])))"

text \<open>
  The attempts of one run of the loop, written as a list: with \<open>n\<close> rounds left, the cycle at
  item \<open>k\<close> and the world in state \<open>w\<close>, each attempt is the URL taken from the cycle, the
  answer, and the world after it; the list ends with the first answer that is not an exception.
  It is used to state what \<open>perform_rpc_loop\<close> does on a traced transport.
\<close>

fun attempts ::
  "string list \<Rightarrow> 'w transport \<Rightarrow> string \<Rightarrow> pyval list \<Rightarrow> nat \<Rightarrow> nat \<Rightarrow> 'w
    \<Rightarrow> (string \<times> (string + pyval) \<times> 'w) list" where
  "attempts urls call method args 0 k w = []"
| "attempts urls call method args (Suc n) k w =
    (case call (urls ! (k mod length urls)) method args w of
      (r, w') \<Rightarrow>
        (urls ! (k mod length urls), r, w') #
          (if isl r then attempts urls call method args n (Suc k) w' else []))"

text \<open>
  What the loop hands back after these attempts: the result of the last attempt when it is not
  an exception, and nothing (the loop ran to its end) otherwise.
\<close>

definition outcome_of :: "(string \<times> (string + pyval) \<times> 'w) list \<Rightarrow> (exn + pyval) option" where
  "outcome_of at = (if at = [] then None else case fst (snd (last at)) of Inl e \<Rightarrow> None | Inr v \<Rightarrow> Some (Inr v))"

text \<open>Two remote sides for examples: no server answers; every server answers \<open>None\<close>.\<close>

definition all_down :: "unit transport" where
  "all_down url method args w = (Inl ''[Errno 111] Connection refused'', w)"

definition answers_none :: "unit transport" where
  "answers_none url method args w = (Inr PNone, w)"

text \<open>The server on port 8000 is down, the one on port 8001 answers an empty list.\<close>

definition second_up :: "unit transport" where
  "second_up url method args w =
    (if url = ''http://localhost:8001'' then (Inr (PList []), w)
     else (Inl ''[Errno 111] Connection refused'', w))"

definition fresh :: "'w \<Rightarrow> 'w client" where
  "fresh w = \<lparr>server_cycle = 0, printed = [], network = w\<rparr>"

section \<open>The server: \<open>notebook_server.py\<close>\<close>

text \<open>
  A handler either returns a value or raises. A third outcome marks the calls whose path
  expression reaches a part of the path language that is left out of the model below; nothing
  is stated about them.
\<close>

datatype 'a outcome = Returns 'a | Raises exn | Unmodelled

subsection \<open>Element trees\<close>

text \<open>
  An \<open>xml.etree.ElementTree.Element\<close>: tag, attributes, text and children. The tail of an
  element and the text of an element that has children hold only the white space that
  \<open>ET.indent\<close> writes; they are left out, since the only path steps that read them are
  among the steps treated as \<open>Unmodelled\<close> below.
\<close>

datatype element =
  Element (tag: string) (attrib: "(string \<times> string) list") (etext: "string option")
    (children: "element list")

text \<open>
  An element of a tree is named by its position, the list of child indices that leads to it
  from the root. \<open>ET.SubElement(parent, ...)\<close> appends a new last child to the element at a
  position.
\<close>

fun sub_element :: "nat list \<Rightarrow> element \<Rightarrow> element \<Rightarrow> element" where
  "sub_element [] new (Element t a x cs) = Element t a x (cs @ [new])"
| "sub_element (i # p) new (Element t a x cs) =
    Element t a x (cs[i := sub_element p new (cs ! i)])"

text \<open>The element at a position, if the position is one of the tree.\<close>

fun at_pos :: "element \<Rightarrow> nat list \<Rightarrow> element option" where
  "at_pos e [] = Some e"
| "at_pos e (i # p) = (if i < length (children e) then at_pos (children e ! i) p else None)"

subsection \<open>Path expressions: \<open>xml.etree.ElementPath\<close> (CPython 3.11)\<close>

definition apostrophe :: char where
  "apostrophe = CHR 0x27"

definition is_space :: "char \<Rightarrow> bool" where
  "is_space c = (c \<in> set [CHR 0x09, CHR 0x0A, CHR 0x0B, CHR 0x0C, CHR 0x0D, CHR 0x1C, CHR 0x1D,
     CHR 0x1E, CHR 0x1F, CHR 0x20, CHR 0x85, CHR 0xA0])"

definition name_char :: "char \<Rightarrow> bool" where
  "name_char c = (c \<notin> set ''/[]()@!='' \<and> \<not> is_space c)"

type_synonym token = "string \<times> string"

definition starts :: "string \<Rightarrow> string \<Rightarrow> bool" where
  "starts p s = (take (length p) s = p)"

text \<open>
  The alternatives of \<open>xpath_tokenizer_re\<close>, each tried at the head of the string: the token
  it gives and the rest of the string. \<open>quoted\<close> is \<open>'[^']*'\<close> and \<open>"[^"]*"\<close>.
\<close>

definition quoted :: "char \<Rightarrow> string \<Rightarrow> (token \<times> string) option" where
  "quoted q s =
    (case s of
      [] \<Rightarrow> None
    | c # r \<Rightarrow>
        if c = q \<and> q \<in> set r
        then Some ((q # takeWhile (\<lambda>x. x \<noteq> q) r @ [q], []), tl (dropWhile (\<lambda>x. x \<noteq> q) r))
        else None)"

text \<open>The second group, first with its optional \<open>{...}\<close> prefix, then without it.\<close>

definition braced_name :: "string \<Rightarrow> (token \<times> string) option" where
  "braced_name s =
    (case s of
      [] \<Rightarrow> None
    | c # r \<Rightarrow>
        (let inner = takeWhile (\<lambda>x. x \<noteq> CHR ''}'') r;
             after = tl (dropWhile (\<lambda>x. x \<noteq> CHR ''}'') r)
         in if c = CHR ''{'' \<and> inner \<noteq> [] \<and> dropWhile (\<lambda>x. x \<noteq> CHR ''}'') r \<noteq> [] \<and>
               takeWhile name_char after \<noteq> []
            then Some (([], CHR ''{'' # inner @ CHR ''}'' # takeWhile name_char after),
                       dropWhile name_char after)
            else None))"

definition plain_name :: "string \<Rightarrow> (token \<times> string) option" where
  "plain_name s =
    (if takeWhile name_char s = [] then None
     else Some (([], takeWhile name_char s), dropWhile name_char s))"

definition first_of :: "'a option \<Rightarrow> 'a option \<Rightarrow> 'a option" where
  "first_of a b = (case a of Some x \<Rightarrow> Some x | None \<Rightarrow> b)"

definition literal :: "string \<Rightarrow> string \<Rightarrow> (token \<times> string) option" where
  "literal p s = (if starts p s then Some ((p, []), drop (length p) s) else None)"

definition match_here :: "string \<Rightarrow> (token \<times> string) option" where
  "match_here s =
    first_of (quoted apostrophe s) (first_of (quoted CHR 0x22 s)
   (first_of (literal ''::'' s) (first_of (literal ''//'' s) (first_of (literal ''/'' s)
   (first_of (literal ''..'' s) (first_of (literal ''()'' s) (first_of (literal ''!='' s)
   (first_of (if s \<noteq> [] \<and> hd s \<in> set ''/.*:[]()@='' then Some (([hd s], []), tl s) else None)
   (first_of (braced_name s) (first_of (plain_name s)
   (if s \<noteq> [] \<and> is_space (hd s) then Some (([], []), dropWhile is_space s) else None)))))))))))"

lemma dropWhile_shorter: "takeWhile P s \<noteq> [] \<Longrightarrow> length (dropWhile P s) < length s"
proof -
  assume a: "takeWhile P s \<noteq> []"
  have "length s = length (takeWhile P s) + length (dropWhile P s)"
    by (metis length_append takeWhile_dropWhile_id)
  with a show ?thesis by simp
qed

lemma tl_dropWhile_le: "length (tl (dropWhile P r)) \<le> length r"
  using length_dropWhile_le [of P r] by simp

lemma quoted_shorter: "quoted q s = Some (t, r) \<Longrightarrow> length r < length s"
  using tl_dropWhile_le [of "\<lambda>x. x \<noteq> q"]
  by (auto simp: quoted_def le_imp_less_Suc split: list.splits if_splits)

lemma literal_shorter: "literal p s = Some (t, r) \<Longrightarrow> p \<noteq> [] \<Longrightarrow> length r < length s"
proof -
  assume a: "literal p s = Some (t, r)" and p: "p \<noteq> []"
  from a have st: "take (length p) s = p" and r: "r = drop (length p) s"
    by (auto simp: literal_def starts_def split: if_splits)
  from st have "length (take (length p) s) = length p" by simp
  then have "length p \<le> length s" by simp
  moreover from p have "0 < length p" by simp
  ultimately have "length s - length p < length s" by arith
  with r show ?thesis by simp
qed

lemma braced_name_shorter: "braced_name s = Some (t, r) \<Longrightarrow> length r < length s"
proof -
  assume a: "braced_name s = Some (t, r)"
  then obtain c r0 where s: "s = c # r0" by (cases s) (auto simp: braced_name_def)
  from a s have "r = dropWhile name_char (tl (dropWhile (\<lambda>x. x \<noteq> CHR ''}'') r0))"
    by (auto simp: braced_name_def Let_def split: if_splits)
  then have "length r \<le> length (tl (dropWhile (\<lambda>x. x \<noteq> CHR ''}'') r0))"
    using length_dropWhile_le [of name_char "tl (dropWhile (\<lambda>x. x \<noteq> CHR ''}'') r0)"] by simp
  also have "\<dots> \<le> length r0" by (rule tl_dropWhile_le)
  finally show ?thesis using s by simp
qed

lemma plain_name_shorter: "plain_name s = Some (t, r) \<Longrightarrow> length r < length s"
  by (auto simp: plain_name_def dropWhile_shorter split: if_splits)

lemma match_here_shorter: "match_here s = Some (t, r) \<Longrightarrow> length r < length s"
proof -
  assume a: "match_here s = Some (t, r)"
  have sp: "length (dropWhile is_space s) < length s" if "s \<noteq> []" "is_space (hd s)"
    using that by (intro dropWhile_shorter) (cases s, auto)
  from a show ?thesis
    unfolding match_here_def first_of_def
    by (auto split: option.splits if_splits
        dest: quoted_shorter literal_shorter braced_name_shorter plain_name_shorter
        simp: sp)
qed

text \<open>
  \<open>xpath_tokenizer_re.findall(pattern)\<close>: the matches from left to right; a character at
  which no alternative matches is skipped.
\<close>

function re_findall :: "string \<Rightarrow> token list" where
  "re_findall s =
    (if s = [] then []
     else case match_here s of
       None \<Rightarrow> re_findall (tl s)
     | Some (t, r) \<Rightarrow> t # re_findall r)"
  by pat_completeness auto
termination
  by (relation "measure length") (auto dest: match_here_shorter)

declare re_findall.simps [simp del]

text \<open>
  \<open>xpath_tokenizer(pattern, namespaces=None)\<close> is a generator: a name that holds a colon and
  does not start with a brace raises \<open>SyntaxError\<close> (there is no prefix map) when the
  generator reaches it, not before. The message names the prefix; that is left out.
\<close>

definition xpath_tokenizer :: "string \<Rightarrow> (exn + token) list" where
  "xpath_tokenizer pattern =
    map (\<lambda>(ttype, tg).
          if tg \<noteq> [] \<and> hd tg \<noteq> CHR ''{'' \<and> CHR '':'' \<in> set tg
          then Inl (SyntaxError ''prefix not found in prefix map'')
          else Inr (ttype, tg))
      (re_findall pattern)"

text \<open>
  The selectors that the path of the server is made of: \<open>.\<close>, a child tag, and the predicate
  \<open>[@attribute='value']\<close>. The other steps of the language (\<open>*\<close>, \<open>..\<close>, \<open>//\<close>, wildcard tags
  and the other predicates) are the part that is left out.
\<close>

datatype step = Self | Child string | AttrEq string string

definition prepend :: "step \<Rightarrow> step list outcome \<Rightarrow> step list outcome" where
  "prepend st r =
    (case r of Returns sts \<Rightarrow> Returns (st # sts) | Raises e \<Rightarrow> Raises e | Unmodelled \<Rightarrow> Unmodelled)"

definition is_wildcard_tag :: "string \<Rightarrow> bool" where
  "is_wildcard_tag tg = (take 3 tg = ''{*}'' \<or> drop (length tg - 2) tg = ''}*'')"

text \<open>\<open>prepare_child\<close>.\<close>

definition prepare_child :: "string \<Rightarrow> step outcome" where
  "prepare_child tg =
    (if is_wildcard_tag tg then Unmodelled
     else Returns (Child (if take 2 tg = ''{}'' then drop 2 tg else tg)))"

text \<open>
  The end of \<open>prepare_predicate\<close>: the kind of predicate is read off the signature, the string
  made of the token types. For the signature \<open>@-='\<close> the four tokens are \<open>@\<close>, the attribute
  name, \<open>=\<close> and the quoted value.
\<close>

definition predicate_step :: "string list \<Rightarrow> string list \<Rightarrow> step outcome" where
  "predicate_step signature predicate =
    (if concat signature = ''@-='' @ [apostrophe]
     then Returns (AttrEq (predicate ! 1) (last predicate))
     else if concat signature \<in> set [''@-'', ''@-!='' @ [apostrophe], ''-'',
        ''.='' @ [apostrophe], ''.!='' @ [apostrophe], ''-='' @ [apostrophe],
        ''-!='' @ [apostrophe], ''-()'', ''-()-'']
     then Unmodelled
     else Raises (SyntaxError ''invalid predicate''))"

text \<open>
  The loop of \<open>iterfind\<close> that builds the selector, together with the loop of
  \<open>prepare_predicate\<close>, as one pass over the tokens. \<open>StepToken\<close>: the next token starts a
  step. \<open>AfterStep\<close>: a step has just been built, and one \<open>/\<close> is skipped. \<open>Predicate\<close>: inside
  \<open>[...]\<close>, with the signature and the token texts collected so far. When the tokens end
  inside a predicate, \<open>prepare_predicate\<close> returns \<open>None\<close>, and calling that selector raises
  \<open>TypeError\<close>.
\<close>

datatype mode = StepToken | AfterStep | Predicate "string list" "string list"

fun compile :: "mode \<Rightarrow> (exn + token) list \<Rightarrow> step list outcome" where
  "compile (Predicate sg pr) [] = Raises (TypeError ''NoneType object is not callable'')"
| "compile m [] = Returns []"
| "compile m (Inl e # ts) = Raises e"
| "compile (Predicate sg pr) (Inr (t0, t1) # ts) =
    (if t0 = '']'' then
       (case predicate_step sg pr of
         Returns st \<Rightarrow> prepend st (compile AfterStep ts)
       | Raises e \<Rightarrow> Raises e
       | Unmodelled \<Rightarrow> Unmodelled)
     else if t0 = [] \<and> t1 = [] then compile (Predicate sg pr) ts
     else if t0 \<noteq> [] \<and> hd t0 \<in> set [apostrophe, CHR 0x22]
       then compile (Predicate (sg @ [[apostrophe]]) (pr @ [butlast (tl t0)])) ts
     else compile (Predicate (sg @ [if t0 = [] then ''-'' else t0]) (pr @ [t1])) ts)"
| "compile m (Inr (t0, t1) # ts) =
    (if m = AfterStep \<and> t0 = ''/'' then compile StepToken ts
     else if t0 = [] then
       (case prepare_child t1 of
         Returns st \<Rightarrow> prepend st (compile AfterStep ts)
       | Raises e \<Rightarrow> Raises e
       | Unmodelled \<Rightarrow> Unmodelled)
     else if t0 = ''.'' then prepend Self (compile AfterStep ts)
     else if t0 = ''['' then compile (Predicate [] []) ts
     else if t0 \<in> set [''*'', ''..'', ''//''] then Unmodelled
     else Raises (KeyError t0))"

text \<open>
  Running a selector on a list of elements, each with its position. \<open>elem.get(key) == value\<close>
  looks the key up in the attributes.
\<close>

fun select :: "step \<Rightarrow> (nat list \<times> element) list \<Rightarrow> (nat list \<times> element) list" where
  "select Self result = result"
| "select (Child tg) result =
    concat (map (\<lambda>(p, e). map (\<lambda>(i, c). (p @ [i], c))
                   (filter (\<lambda>(i, c). tag c = tg) (enumerate 0 (children e)))) result)"
| "select (AttrEq key v) result = filter (\<lambda>(p, e). map_of (attrib e) key = Some v) result"

definition iterfind :: "element \<Rightarrow> string \<Rightarrow> (nat list \<times> element) list outcome" where
  "iterfind elem path =
    (let path' = (if path \<noteq> [] \<and> last path = CHR ''/'' then path @ ''*'' else path) in
     if take 1 path' = ''/'' then Raises (SyntaxError ''cannot use absolute path on element'')
     else if xpath_tokenizer path' = [] then Raises (TypeError ''NoneType object is not an iterator'')
     else case compile StepToken (xpath_tokenizer path') of
       Returns selector \<Rightarrow> Returns (foldl (\<lambda>result st. select st result) [([], elem)] selector)
     | Raises e \<Rightarrow> Raises e
     | Unmodelled \<Rightarrow> Unmodelled)"

text \<open>\<open>Element.find(path)\<close>: the first match, or \<open>None\<close>.\<close>

definition ET_find :: "element \<Rightarrow> string \<Rightarrow> (nat list \<times> element) option outcome" where
  "ET_find elem path =
    (case iterfind elem path of
      Returns result \<Rightarrow> Returns (case result of [] \<Rightarrow> None | x # _ \<Rightarrow> Some x)
    | Raises e \<Rightarrow> Raises e
    | Unmodelled \<Rightarrow> Unmodelled)"

text \<open>A path that is a plain tag name: \<open>findall(tag)\<close> and \<open>find(tag)\<close> on the children.\<close>

definition findall_tag :: "element \<Rightarrow> string \<Rightarrow> element list" where
  "findall_tag elem tg = filter (\<lambda>c. tag c = tg) (children elem)"

definition find_tag :: "element \<Rightarrow> string \<Rightarrow> element option" where
  "find_tag elem tg = (case findall_tag elem tg of [] \<Rightarrow> None | c # _ \<Rightarrow> Some c)"

subsection \<open>The file \<open>notes.xml\<close>\<close>

text \<open>
  The file is modelled by the tree that was written to it last (\<open>None\<close>: no file yet).
  \<open>ET.parse\<close> reads the serialised tree back, and what it gives is not always what was
  written: an empty text is written as an empty element and comes back as \<open>None\<close>; in text,
  the line ends CR LF and CR come back as LF (attribute values are written with these
  characters escaped, and keep them); and a control character other than tab, line feed and
  carriage return makes the file ill-formed, so that parsing it raises \<open>ParseError\<close>.
  Characters are the code points below 256.
\<close>

definition xml_char :: "char \<Rightarrow> bool" where
  "xml_char c = (c = CHR 0x09 \<or> c = CHR 0x0A \<or> c = CHR 0x0D \<or> 32 \<le> (of_char c :: nat))"

fun newlines :: "string \<Rightarrow> string" where
  "newlines (a # b # s) =
    (if a = CHR 0x0D \<and> b = CHR 0x0A then CHR 0x0A # newlines s
     else if a = CHR 0x0D then CHR 0x0A # newlines (b # s)
     else a # newlines (b # s))"
| "newlines [a] = (if a = CHR 0x0D then [CHR 0x0A] else [a])"
| "newlines [] = []"

fun well_formed :: "element \<Rightarrow> bool" where
  "well_formed (Element t a x cs) =
    (list_all (\<lambda>(k, v). list_all xml_char v) a \<and>
     (case x of None \<Rightarrow> True | Some s \<Rightarrow> list_all xml_char s) \<and>
     list_all well_formed cs)"

fun reparsed :: "element \<Rightarrow> element" where
  "reparsed (Element t a x cs) =
    Element t a (case x of None \<Rightarrow> None | Some s \<Rightarrow> if s = [] then None else Some (newlines s))
      (map reparsed cs)"

definition ET_parse :: "element \<Rightarrow> exn + element" where
  "ET_parse written = (if well_formed written then Inr (reparsed written) else Inl ParseError)"

type_synonym db = "element option"

definition empty_root :: element where
  "empty_root = Element ''data'' [] None []"

text \<open>\<open>_load_tree\<close>: a missing file is created with an empty root, then parsed.\<close>

definition load_tree :: "db \<Rightarrow> (exn + element) \<times> db" where
  "load_tree f =
    (case f of
      None \<Rightarrow> (ET_parse empty_root, Some empty_root)
    | Some written \<Rightarrow> (ET_parse written, f))"

subsection \<open>Time stamps\<close>

text \<open>
  The value of \<open>datetime.datetime.utcnow()\<close> is an input of \<open>add_note\<close>. Its fields lie in the
  ranges of \<open>valid_datetime\<close>, so each field that \<open>strftime\<close> prints with \<open>%m %d %y %H %M %S\<close>
  has two digits.
\<close>

record datetime =
  year :: nat
  month :: nat
  day :: nat
  hour :: nat
  minute :: nat
  second :: nat


definition two_digits :: "nat \<Rightarrow> string" where
  "two_digits n = [digit (n div 10 mod 10), digit (n mod 10)]"

text \<open>\<open>strftime("%m/%d/%y - %H:%M:%S")\<close>.\<close>

definition strftime :: "datetime \<Rightarrow> string" where
  "strftime d =
    two_digits (month d) @ ''/'' @ two_digits (day d) @ ''/'' @ two_digits (year d mod 100) @
    '' - '' @ two_digits (hour d) @ '':'' @ two_digits (minute d) @ '':'' @ two_digits (second d)"

subsection \<open>The handlers\<close>

definition topic_path :: "string \<Rightarrow> string" where
  "topic_path topic = ''./topic[@name='' @ [apostrophe] @ topic @ [apostrophe] @ '']''"

text \<open>\<open>timestamp or datetime.datetime.utcnow().strftime(...)\<close>.\<close>

definition timestamp_or_now :: "string option \<Rightarrow> datetime \<Rightarrow> string" where
  "timestamp_or_now timestamp now =
    (case timestamp of None \<Rightarrow> strftime now | Some t \<Rightarrow> if t = [] then strftime now else t)"

definition note_element :: "string \<Rightarrow> string \<Rightarrow> element" where
  "note_element body ts =
    Element ''note'' [(''name'', if length body \<le> 30 then body else take 30 body)] None
      [Element ''text'' [] (Some body) [], Element ''timestamp'' [] (Some ts) []]"

text \<open>
  \<open>add_note(topic, text, timestamp=None)\<close>, with the clock and the file as further arguments;
  the result is what the call returns or raises, and the file after it.
\<close>

definition add_note ::
  "datetime \<Rightarrow> string \<Rightarrow> string \<Rightarrow> string option \<Rightarrow> db \<Rightarrow> pyval outcome \<times> db" where
  "add_note now topic body timestamp f =
    (case load_tree f of
      (Inl e, f') \<Rightarrow> (Raises e, f')
    | (Inr root, f') \<Rightarrow>
        (case ET_find root (topic_path topic) of
          Raises e \<Rightarrow> (Raises e, f')
        | Unmodelled \<Rightarrow> (Unmodelled, f')
        | Returns None \<Rightarrow>
            (Returns (PBool True),
             Some (sub_element [length (children root)]
                     (note_element body (timestamp_or_now timestamp now))
                     (sub_element [] (Element ''topic'' [(''name'', topic)] None []) root)))
        | Returns (Some (p, topic_el)) \<Rightarrow>
            (Returns (PBool True),
             Some (sub_element p (note_element body (timestamp_or_now timestamp now)) root))))"

text \<open>
  \<open>note.find(tag).text if note.find(tag) is not None else ""\<close>: the text of an element that
  is there can itself be \<open>None\<close>.
\<close>

definition child_text :: "element \<Rightarrow> string \<Rightarrow> pyval" where
  "child_text note tg =
    (case find_tag note tg of
      None \<Rightarrow> PStr []
    | Some c \<Rightarrow> (case etext c of None \<Rightarrow> PNone | Some s \<Rightarrow> PStr s))"

text \<open>
  \<open>get_notes(topic)\<close>. \<open>not topic_el\<close> holds for \<open>None\<close> and for an element without
  children.
\<close>

definition get_notes :: "string \<Rightarrow> db \<Rightarrow> pyval outcome \<times> db" where
  "get_notes topic f =
    (case load_tree f of
      (Inl e, f') \<Rightarrow> (Raises e, f')
    | (Inr root, f') \<Rightarrow>
        (case ET_find root (topic_path topic) of
          Raises e \<Rightarrow> (Raises e, f')
        | Unmodelled \<Rightarrow> (Unmodelled, f')
        | Returns None \<Rightarrow> (Returns (PList []), f')
        | Returns (Some (p, topic_el)) \<Rightarrow>
            if children topic_el = [] then (Returns (PList []), f')
            else (Returns (PList (map (\<lambda>note. PList [child_text note ''timestamp'',
                                                      child_text note ''text''])
                                    (findall_tag topic_el ''note''))), f')))"

text \<open>\<open>list_topics()\<close>; \<open>topic.attrib['name']\<close> raises \<open>KeyError\<close> when there is no name.\<close>

fun topic_names :: "element list \<Rightarrow> exn + pyval list" where
  "topic_names [] = Inr []"
| "topic_names (t # ts) =
    (case map_of (attrib t) ''name'' of
      None \<Rightarrow> Inl (KeyError ''name'')
    | Some n \<Rightarrow> (case topic_names ts of Inl e \<Rightarrow> Inl e | Inr ns \<Rightarrow> Inr (PStr n # ns)))"

definition list_topics :: "db \<Rightarrow> pyval outcome \<times> db" where
  "list_topics f =
    (case load_tree f of
      (Inl e, f') \<Rightarrow> (Raises e, f')
    | (Inr root, f') \<Rightarrow>
        (case topic_names (findall_tag root ''topic'') of
          Inl e \<Rightarrow> (Raises e, f')
        | Inr ns \<Rightarrow> (Returns (PList ns), f')))"

subsection \<open>\<open>wiki_lookup\<close>\<close>

text \<open>The truth value of a Python object, \<open>len\<close> and indexing, on the values of a JSON document.\<close>

fun truthy :: "pyval \<Rightarrow> bool" where
  "truthy PNone = False"
| "truthy (PBool b) = b"
| "truthy (PInt n) = (n \<noteq> 0)"
| "truthy (PStr s) = (s \<noteq> [])"
| "truthy (PList xs) = (xs \<noteq> [])"
| "truthy (PDict kvs) = (kvs \<noteq> [])"

text \<open>\<open>type(v).__name__\<close>, as the messages of \<open>TypeError\<close> print it.\<close>

fun type_name :: "pyval \<Rightarrow> string" where
  "type_name PNone = ''NoneType''"
| "type_name (PBool b) = ''bool''"
| "type_name (PInt n) = ''int''"
| "type_name (PStr s) = ''str''"
| "type_name (PList xs) = ''list''"
| "type_name (PDict kvs) = ''dict''"

fun len :: "pyval \<Rightarrow> exn + nat" where
  "len (PStr s) = Inr (length s)"
| "len (PList xs) = Inr (length xs)"
| "len (PDict kvs) = Inr (length kvs)"
| "len v =
    Inl (TypeError (''object of type '' @ apostrophe # type_name v @ apostrophe # '' has no len()''))"

text \<open>
  \<open>v[i]\<close> for a non-negative integer \<open>i\<close>. The keys of a JSON object are strings, so an
  integer is never one of them.
\<close>

fun getitem :: "pyval \<Rightarrow> nat \<Rightarrow> exn + pyval" where
  "getitem (PList xs) i = (if i < length xs then Inr (xs ! i) else Inl (IndexError ''list index out of range''))"
| "getitem (PStr s) i = (if i < length s then Inr (PStr [s ! i]) else Inl (IndexError ''string index out of range''))"
| "getitem (PDict kvs) i = Inl (KeyError (decimal i))"
| "getitem v i =
    Inl (TypeError (apostrophe # type_name v @ apostrophe # '' object is not subscriptable''))"

text \<open>
  \<open>requests.get(...).json()\<close> is the reference service: for a search term it either raises
  (the service cannot be reached, or the body is not JSON) or gives the decoded document. It
  is a parameter of \<open>wiki_lookup\<close>, which has no \<open>try\<close> of its own. The expression returned is
  \<open>resp[3][0] if resp and len(resp[3]) else ''\<close>.
\<close>

definition wiki_lookup :: "(string \<Rightarrow> exn + pyval) \<Rightarrow> string \<Rightarrow> exn + pyval" where
  "wiki_lookup service topic =
    (case service topic of
      Inl e \<Rightarrow> Inl e
    | Inr resp \<Rightarrow>
        if \<not> truthy resp then Inr (PStr [])
        else
          (case getitem resp 3 of
            Inl e \<Rightarrow> Inl e
          | Inr third \<Rightarrow>
              (case len third of
                Inl e \<Rightarrow> Inl e
              | Inr n \<Rightarrow> if n = 0 then Inr (PStr []) else getitem third 0)))"

text \<open>
  Reference services for the examples: one that cannot be reached, one that answers with an
  error object instead of the search result, and one that answers as the opensearch protocol
  says.
\<close>

definition unreachable :: "string \<Rightarrow> exn + pyval" where
  "unreachable term = Inl (RequestException ''Connection refused'')"

definition error_object :: "string \<Rightarrow> exn + pyval" where
  "error_object term = Inr (PDict [(''error'', PDict [(''code'', PStr ''internal_api_error'')])])"

definition opensearch :: "string \<Rightarrow> exn + pyval" where
  "opensearch term =
    Inr (PList [PStr term, PList [PStr ''Tea''], PList [PStr []],
                PList [PStr ''https://en.wikipedia.org/wiki/Tea'']])"

subsection \<open>Examples\<close>

text \<open>A clock reading for the examples.\<close>

definition noon :: datetime where
  "noon = \<lparr>year = 2025, month = 3, day = 9, hour = 12, minute = 0, second = 7\<rparr>"

section \<open>What the store is meant to be\<close>

text \<open>
  The definitions of this section are not part of the programs: they say what the handlers
  are compared with.
\<close>

subsection \<open>Topics among the children of the root\<close>

text \<open>
  The children of the root that are topic elements of a given name, with their indices: what
  the path of \<open>add_note\<close> and \<open>get_notes\<close> is meant to select. The names of all topic
  elements, in document order (\<open>None\<close> for an element without a name).
\<close>

definition topic_children :: "element \<Rightarrow> string \<Rightarrow> (nat \<times> element) list" where
  "topic_children root topic =
    filter (\<lambda>(i, c). tag c = ''topic'' \<and> map_of (attrib c) ''name'' = Some topic)
      (enumerate 0 (children root))"

definition topic_name_list :: "element \<Rightarrow> string option list" where
  "topic_name_list root = map (\<lambda>c. map_of (attrib c) ''name'') (findall_tag root ''topic'')"

subsection \<open>The store as a list of topics\<close>

text \<open>
  A notebook: the topics in the order of their creation, each with its notes, the pairs of
  time stamp and text, in the order in which they were added. \<open>put_note\<close> adds a note under
  the first topic of the name, or under a new last topic; \<open>notes_under\<close> reads a topic.
\<close>

type_synonym notebook = "(string \<times> (string \<times> string) list) list"

fun put_note :: "notebook \<Rightarrow> string \<Rightarrow> string \<times> string \<Rightarrow> notebook" where
  "put_note [] topic n = [(topic, [n])]"
| "put_note ((k, ns) # st) topic n =
    (if k = topic then (k, ns @ [n]) # st else (k, ns) # put_note st topic n)"

definition notes_under :: "notebook \<Rightarrow> string \<Rightarrow> (string \<times> string) list" where
  "notes_under st topic = (case map_of st topic of None \<Rightarrow> [] | Some ns \<Rightarrow> ns)"

definition first_index :: "notebook \<Rightarrow> string \<Rightarrow> nat" where
  "first_index st topic = length (takeWhile (\<lambda>x. fst x \<noteq> topic) st)"

text \<open>The tree that holds a notebook.\<close>

definition topic_element :: "string \<times> (string \<times> string) list \<Rightarrow> element" where
  "topic_element t =
    Element ''topic'' [(''name'', fst t)] None (map (\<lambda>(ts, body). note_element body ts) (snd t))"

definition store_tree :: "notebook \<Rightarrow> element" where
  "store_tree st = Element ''data'' [] None (map topic_element st)"

text \<open>
  A text that the file gives back as it was written: not empty, without a carriage return,
  and without another control character. A notebook all of whose strings are such.
\<close>

definition safe_text :: "string \<Rightarrow> bool" where
  "safe_text s = (s \<noteq> [] \<and> list_all xml_char s \<and> CHR 0x0D \<notin> set s)"

definition clean_store :: "notebook \<Rightarrow> bool" where
  "clean_store st =
    list_all (\<lambda>(k, ns). list_all xml_char k \<and>
      list_all (\<lambda>(ts, body). safe_text ts \<and> safe_text body) ns) st"

subsection \<open>Sequences of calls\<close>

text \<open>
  A call of \<open>add_note\<close>: the clock, the topic, the text and the time stamp argument.
  \<open>add_notes\<close> makes the calls one after the other on the file; \<open>put_notes\<close> does the same
  on a notebook. A call is safe when its topic has no apostrophe and no control character,
  and its text and time stamp (if one is given, and not empty) are safe texts.
  \<open>pairs_for\<close> lists the pairs that the calls add under a topic.
\<close>

type_synonym call = "datetime \<times> string \<times> string \<times> string option"

fun add_notes :: "call list \<Rightarrow> db \<Rightarrow> db" where
  "add_notes [] f = f"
| "add_notes ((now, topic, body, timestamp) # cs) f =
    add_notes cs (snd (add_note now topic body timestamp f))"

fun put_notes :: "call list \<Rightarrow> notebook \<Rightarrow> notebook" where
  "put_notes [] st = st"
| "put_notes ((now, topic, body, timestamp) # cs) st =
    put_notes cs (put_note st topic (timestamp_or_now timestamp now, body))"

definition safe_call :: "call \<Rightarrow> bool" where
  "safe_call c =
    (case c of (now, topic, body, timestamp) \<Rightarrow>
      apostrophe \<notin> set topic \<and> list_all xml_char topic \<and> safe_text body \<and>
      (case timestamp of None \<Rightarrow> True | Some ts \<Rightarrow> ts = [] \<or> safe_text ts))"

definition pairs_for :: "string \<Rightarrow> call list \<Rightarrow> (string \<times> string) list" where
  "pairs_for topic cs =
    map (\<lambda>(now, t, body, timestamp). (timestamp_or_now timestamp now, body))
      (filter (\<lambda>(now, t, body, timestamp). t = topic) cs)"

subsection \<open>The format of a time stamp\<close>

text \<open>\<open>MM/DD/YY - HH:MM:SS\<close>: nineteen characters, digits but for the separators.\<close>

definition is_digit :: "char \<Rightarrow> bool" where
  "is_digit c = (c \<in> set ''0123456789'')"

definition timestamp_format :: "string \<Rightarrow> bool" where
  "timestamp_format s =
    (length s = 19 \<and>
     list_all (\<lambda>i. is_digit (s ! i)) [0, 1, 3, 4, 6, 7, 11, 12, 14, 15, 17, 18] \<and>
     s ! 2 = CHR ''/'' \<and> s ! 5 = CHR ''/'' \<and> take 3 (drop 8 s) = '' - '' \<and>
     s ! 13 = CHR '':'' \<and> s ! 16 = CHR '':'')"




section \<open>Properties of the client\<close>

subsection \<open>The loop as a list of attempts\<close>

lemma attempts_length: "length (attempts urls call m a n k w) \<le> n"
  by (induction n arbitrary: k w) (auto split: prod.splits)

lemma attempts_urls:
  "map fst (attempts urls call m a n k w) =
    map (\<lambda>i. urls ! ((k + i) mod length urls)) [0..<length (attempts urls call m a n k w)]"
proof (induction n arbitrary: k w)
  case 0
  show ?case by simp
next
  case (Suc n)
  obtain r w' where c: "call (urls ! (k mod length urls)) m a w = (r, w')"
    by (cases "call (urls ! (k mod length urls)) m a w")
  show ?case
  proof (cases "isl r")
    case True
    have "[0..<Suc (length (attempts urls call m a n (Suc k) w'))] =
        0 # map Suc [0..<length (attempts urls call m a n (Suc k) w')]"
      by (simp add: upt_conv_Cons map_Suc_upt del: upt_Suc)
    with True c Suc.IH [of "Suc k" w'] show ?thesis
      by (simp add: comp_def del: upt_Suc)
  next
    case False
    with c show ?thesis by simp
  qed
qed

lemma attempts_success_last:
  "i < length (attempts urls call m a n k w) \<Longrightarrow>
   \<not> isl (fst (snd (attempts urls call m a n k w ! i))) \<Longrightarrow>
   Suc i = length (attempts urls call m a n k w)"
proof (induction n arbitrary: k w i)
  case 0
  then show ?case by simp
next
  case (Suc n)
  obtain r w' where c: "call (urls ! (k mod length urls)) m a w = (r, w')"
    by (cases "call (urls ! (k mod length urls)) m a w")
  show ?case
  proof (cases i)
    case 0
    with Suc.prems c show ?thesis by (auto split: if_splits)
  next
    case (Suc j)
    with Suc.prems c Suc.IH [of j "Suc k" w'] show ?thesis
      by (auto split: if_splits)
  qed
qed

lemma attempts_all_fail:
  "\<forall>url w. isl (fst (call url m a w)) \<Longrightarrow>
   length (attempts urls call m a n k w) = n \<and>
   list_all (\<lambda>x. isl (fst (snd x))) (attempts urls call m a n k w)"
proof (induction n arbitrary: k w)
  case 0
  show ?case by simp
next
  case (Suc n)
  obtain r w' where c: "call (urls ! (k mod length urls)) m a w = (r, w')"
    by (cases "call (urls ! (k mod length urls)) m a w")
  from Suc.prems c have "isl r" by (metis fst_conv)
  with c Suc.IH [OF Suc.prems, of "Suc k" w'] show ?case by simp
qed

lemma loop_traced:
  "urls \<noteq> [] \<Longrightarrow>
   perform_rpc_loop urls (traced call) m a n c =
    (outcome_of (attempts urls call m a n (server_cycle c) (fst (network c))),
     c\<lparr>server_cycle := server_cycle c + length (attempts urls call m a n (server_cycle c) (fst (network c))),
       network := (if attempts urls call m a n (server_cycle c) (fst (network c)) = [] then fst (network c)
                   else snd (snd (last (attempts urls call m a n (server_cycle c) (fst (network c))))),
                   snd (network c) @ map (\<lambda>x. (fst x, fst (snd x))) (attempts urls call m a n (server_cycle c) (fst (network c)))),
       printed := printed c @ map (\<lambda>x. error_line (fst x) (projl (fst (snd x))))
                     (filter (\<lambda>x. isl (fst (snd x))) (attempts urls call m a n (server_cycle c) (fst (network c))))\<rparr>)"
proof (induction n arbitrary: c)
  case 0
  then show ?case by (simp add: outcome_of_def)
next
  case (Suc n)
  obtain w tr where nw: "network c = (w, tr)" by (cases "network c")
  obtain r w' where cl: "call (urls ! (server_cycle c mod length urls)) m a w = (r, w')"
    by (cases "call (urls ! (server_cycle c mod length urls)) m a w")
  show ?case
  proof (cases r)
    case (Inr v)
    with Suc.prems nw cl show ?thesis
      by (simp add: cycle_next_def traced_def outcome_of_def)
  next
    case (Inl e)
    let ?c1 = "c\<lparr>server_cycle := Suc (server_cycle c),
                 network := (w', tr @ [(urls ! (server_cycle c mod length urls), r)]),
                 printed := printed c @ [error_line (urls ! (server_cycle c mod length urls)) e]\<rparr>"
    have step: "perform_rpc_loop urls (traced call) m a (Suc n) c =
        perform_rpc_loop urls (traced call) m a n ?c1"
      using Suc.prems nw cl Inl by (simp add: cycle_next_def traced_def)
    show ?thesis
      unfolding step Suc.IH [OF Suc.prems, of ?c1]
      using nw cl Inl by (simp add: outcome_of_def)
  qed
qed


lemma loop_empty_pool: "perform_rpc_loop [] call m a 0 c = (None, c)"
  by simp

lemma rotate_as_map:
  "map (\<lambda>i. urls ! ((k + i) mod length urls)) [0..<length urls] = rotate k urls"
  by (rule nth_equalityI) (simp_all add: nth_rotate)

text \<open>What one call does on a traced transport, in terms of its attempts.\<close>

lemma perform_rpc_traced:
  assumes "perform_rpc urls (traced call) m a c = (res, c')"
  defines "at \<equiv> attempts urls call m a (length urls) (server_cycle c) (fst (network c))"
  shows "snd (network c') = snd (network c) @ map (\<lambda>x. (fst x, fst (snd x))) at"
    and "server_cycle c' = server_cycle c + length at"
    and "res = (case outcome_of at of None \<Rightarrow> Inr PNone | Some r \<Rightarrow> r)"
    and "printed c' = printed c @
          map (\<lambda>x. error_line (fst x) (projl (fst (snd x)))) (filter (\<lambda>x. isl (fst (snd x))) at) @
          (case outcome_of at of None \<Rightarrow> [all_failed_line] | Some r \<Rightarrow> [])"
proof -
  have "snd (network c') = snd (network c) @ map (\<lambda>x. (fst x, fst (snd x))) at \<and>
    server_cycle c' = server_cycle c + length at \<and>
    res = (case outcome_of at of None \<Rightarrow> Inr PNone | Some r \<Rightarrow> r) \<and>
    printed c' = printed c @
          map (\<lambda>x. error_line (fst x) (projl (fst (snd x)))) (filter (\<lambda>x. isl (fst (snd x))) at) @
          (case outcome_of at of None \<Rightarrow> [all_failed_line] | Some r \<Rightarrow> [])"
  proof (cases "urls = []")
    case True
    with assms(1) show ?thesis
      by (auto simp: perform_rpc_def at_def outcome_of_def)
  next
    case False
    from assms(1) show ?thesis
      unfolding perform_rpc_def loop_traced [OF False] at_def [symmetric]
      by (cases "outcome_of at") auto
  qed
  then show "snd (network c') = snd (network c) @ map (\<lambda>x. (fst x, fst (snd x))) at"
    and "server_cycle c' = server_cycle c + length at"
    and "res = (case outcome_of at of None \<Rightarrow> Inr PNone | Some r \<Rightarrow> r)"
    and "printed c' = printed c @
          map (\<lambda>x. error_line (fst x) (projl (fst (snd x)))) (filter (\<lambda>x. isl (fst (snd x))) at) @
          (case outcome_of at of None \<Rightarrow> [all_failed_line] | Some r \<Rightarrow> [])"
    by simp_all
qed

lemma outcome_of_all_fail:
  "list_all (\<lambda>x. isl (fst (snd x))) at \<Longrightarrow> outcome_of at = None"
  by (cases at rule: rev_cases) (auto simp: outcome_of_def split: sum.splits)

lemma outcome_of_success:
  assumes "i < length at" and "fst (snd (at ! i)) = Inr v" and "Suc i = length at"
  shows "outcome_of at = Some (Inr v)"
proof -
  from assms have "at \<noteq> []" by auto
  moreover from assms have "length at - 1 = i" by simp
  with \<open>at \<noteq> []\<close> have "last at = at ! i"
    by (simp add: last_conv_nth)
  ultimately show ?thesis using assms by (simp add: outcome_of_def)
qed

subsection \<open>Exhaustion and first success\<close>

lemma server_urls_eval: "server_urls = [''http://localhost:8000'', ''http://localhost:8001'']"
  by (simp add: server_urls_def ports_def decimal.simps digit_def)

lemma loop_all_fail:
  "\<forall>url w. isl (fst (call url m a w)) \<Longrightarrow> urls \<noteq> [] \<Longrightarrow>
   fst (perform_rpc_loop urls call m a n c) = None"
proof (induction n arbitrary: c)
  case 0
  show ?case by simp
next
  case (Suc n)
  let ?u = "urls ! (server_cycle c mod length urls)"
  obtain r w where cl: "call ?u m a (network c) = (r, w)"
    by (cases "call ?u m a (network c)")
  from Suc.prems(1) cl have "isl r" by (metis fst_conv)
  then obtain e where "r = Inl e" by (cases r) simp_all
  moreover have "fst (perform_rpc_loop urls call m a n c') = None" for c'
    using Suc.prems by (intro Suc.IH) simp_all
  ultimately show ?case using cl Suc.prems(2)
    by (simp add: cycle_next_def)
qed

lemma perform_rpc_all_fail:
  assumes "\<forall>url w. isl (fst (call url m a w))"
  shows "fst (perform_rpc urls call m a c) = Inr PNone"
proof (cases "urls = []")
  case True
  then show ?thesis by (simp add: perform_rpc_def)
next
  case False
  have "fst (perform_rpc_loop urls call m a (length urls) c) = None"
    using assms False by (intro loop_all_fail) simp_all
  then show ?thesis
    by (cases "perform_rpc_loop urls call m a (length urls) c") (simp add: perform_rpc_def)
qed

text \<open>
  Claim C4. When every endpoint of the pool fails, \<open>perform_rpc\<close> makes exactly \<open>N\<close> attempts
  for a pool of \<open>N\<close> endpoints: the endpoints contacted are the pool rotated to the current
  position of the cycle, each one once and in pool order, every one of them answers with an
  exception, an error line is printed for each in that order, then the line that all servers
  failed, and the result is \<open>None\<close>.
\<close>

theorem perform_rpc_exhaustion:
  assumes fail: "\<And>url w. isl (fst (call url method args w))"
    and run: "perform_rpc urls (traced call) method args c = (res, c')"
  shows "res = Inr PNone \<and> server_cycle c' = server_cycle c + length urls \<and>
    (\<exists>es. length es = length urls \<and>
       snd (network c') = snd (network c) @ zip (rotate (server_cycle c) urls) (map Inl es) \<and>
       printed c' = printed c @ map2 error_line (rotate (server_cycle c) urls) es @ [all_failed_line])"
proof -
  define at where "at = attempts urls call method args (length urls) (server_cycle c) (fst (network c))"
  define es where "es = map (\<lambda>x. projl (fst (snd x))) at"
  have len: "length at = length urls" and all: "list_all (\<lambda>x. isl (fst (snd x))) at"
  proof -
    have "\<forall>url w. isl (fst (call url method args w))" using fail by simp
    then have "length at = length urls \<and> list_all (\<lambda>x. isl (fst (snd x))) at"
      unfolding at_def by (rule attempts_all_fail)
    then show "length at = length urls" and "list_all (\<lambda>x. isl (fst (snd x))) at" by simp_all
  qed
  have none: "outcome_of at = None" by (rule outcome_of_all_fail [OF all])
  have urls: "map fst at = rotate (server_cycle c) urls"
    using attempts_urls [of urls call "method" "args" "length urls" "server_cycle c" "fst (network c)"]
    by (simp add: at_def [symmetric] len rotate_as_map)
  have answers: "map (\<lambda>x. fst (snd x)) at = map Inl es"
    unfolding es_def using all by (induction at) auto
  have keep: "filter (\<lambda>x. isl (fst (snd x))) at = at"
    using all by (simp add: list_all_iff)
  have tr: "map (\<lambda>x. (fst x, fst (snd x))) at = zip (rotate (server_cycle c) urls) (map Inl es)"
    unfolding urls [symmetric] answers [symmetric] by (induction at) simp_all
  have lines: "map (\<lambda>x. error_line (fst x) (projl (fst (snd x)))) at =
      map2 error_line (rotate (server_cycle c) urls) es"
    unfolding urls [symmetric] es_def by (induction at) simp_all
  note facts = perform_rpc_traced [OF run, folded at_def]
  have "res = Inr PNone" using facts(3) none by simp
  moreover have "server_cycle c' = server_cycle c + length urls" using facts(2) len by simp
  moreover have "length es = length urls" by (simp add: es_def len)
  moreover have "snd (network c') = snd (network c) @ zip (rotate (server_cycle c) urls) (map Inl es)"
    using facts(1) tr by simp
  moreover have "printed c' = printed c @ map2 error_line (rotate (server_cycle c) urls) es @ [all_failed_line]"
    using facts(4) none keep lines by simp
  ultimately show ?thesis by blast
qed

theorem perform_rpc_exhaustion_witness:
  "fst (perform_rpc server_urls (traced all_down) ''get_notes'' [PStr ''t''] (fresh ((), []))) = Inr PNone \<and>
   server_cycle (snd (perform_rpc server_urls (traced all_down) ''get_notes'' [PStr ''t''] (fresh ((), [])))) = 2"
proof -
  have f: "\<And>url w. isl (fst (all_down url ''get_notes'' [PStr ''t''] w))"
    by (simp add: all_down_def)
  have r: "perform_rpc server_urls (traced all_down) ''get_notes'' [PStr ''t''] (fresh ((), [])) =
      (fst (perform_rpc server_urls (traced all_down) ''get_notes'' [PStr ''t''] (fresh ((), []))),
       snd (perform_rpc server_urls (traced all_down) ''get_notes'' [PStr ''t''] (fresh ((), []))))"
    by simp
  from perform_rpc_exhaustion [OF f r] show ?thesis
    by (simp add: fresh_def server_urls_eval)
qed

text \<open>
  Claim C5. In any call, an attempt that succeeds is the last attempt of the call and its
  result is what \<open>perform_rpc\<close> returns: all the attempts before it failed, and no endpoint
  is contacted after it, however many attempts failed before.
\<close>

theorem perform_rpc_returns_first_success:
  assumes run: "perform_rpc urls (traced call) method args c = (res, c')"
    and new: "snd (network c') = snd (network c) @ new"
    and i: "i < length new" and ok: "snd (new ! i) = Inr v"
  shows "res = Inr v \<and> Suc i = length new \<and> list_all (\<lambda>x. isl (snd x)) (take i new)"
proof -
  define at where "at = attempts urls call method args (length urls) (server_cycle c) (fst (network c))"
  note facts = perform_rpc_traced [OF run, folded at_def]
  from facts(1) new have new_at: "new = map (\<lambda>x. (fst x, fst (snd x))) at" by simp
  with i have i_at: "i < length at" by simp
  with ok new_at have ok_at: "fst (snd (at ! i)) = Inr v" by simp
  then have "\<not> isl (fst (snd (at ! i)))" by simp
  from attempts_success_last [OF i_at [unfolded at_def] this [unfolded at_def]]
  have last: "Suc i = length at" by (simp add: at_def)
  from outcome_of_success [OF i_at ok_at last] facts(3) have "res = Inr v" by simp
  moreover from last new_at have "Suc i = length new" by simp
  moreover have "list_all (\<lambda>x. isl (snd x)) (take i new)"
  proof -
    have "isl (snd (new ! j))" if "j < i" for j
    proof (rule ccontr)
      assume n: "\<not> isl (snd (new ! j))"
      from that i_at have j_at: "j < length at" by simp
      with n new_at have "\<not> isl (fst (snd (at ! j)))" by simp
      from attempts_success_last [OF j_at [unfolded at_def] this [unfolded at_def]]
      have "Suc j = length at" by (simp add: at_def)
      with last that show False by simp
    qed
    with i show ?thesis by (simp add: list_all_length)
  qed
  ultimately show ?thesis by blast
qed

theorem perform_rpc_returns_first_success_witness:
  "fst (perform_rpc server_urls (traced second_up) ''get_notes'' [PStr ''t''] (fresh ((), []))) = Inr (PList []) \<and>
   snd (network (snd (perform_rpc server_urls (traced second_up) ''get_notes'' [PStr ''t''] (fresh ((), []))))) =
     [(''http://localhost:8000'', Inl ''[Errno 111] Connection refused''),
      (''http://localhost:8001'', Inr (PList []))]"
proof -
  let ?run = "perform_rpc server_urls (traced second_up) ''get_notes'' [PStr ''t''] (fresh ((), []))"
  let ?new = "[(''http://localhost:8000'', Inl ''[Errno 111] Connection refused''),
      (''http://localhost:8001'', Inr (PList []))]"
  have r: "?run = (fst ?run, snd ?run)" by simp
  have n: "snd (network (snd ?run)) = snd (network (fresh ((), []))) @ ?new"
    by (simp add: perform_rpc_def server_urls_eval cycle_next_def traced_def second_up_def fresh_def)
  have i: "(1::nat) < length ?new" by simp
  have ok: "snd (?new ! 1) = Inr (PList [])" by simp
  from perform_rpc_returns_first_success [OF r n i ok] n show ?thesis
    by (simp add: fresh_def)
qed

subsection \<open>The cycle is shared by all calls\<close>

text \<open>
  Claim C6. The position of \<open>server_cycle\<close> moves by exactly one for every attempt made,
  whether the attempt succeeds or fails, and a call starts where the call before it stopped:
  the endpoints of two calls in a row are the items of one cycle, numbered on from the position
  before the first call. After a call that made one attempt, the position in the pool differs
  from the one before exactly when the pool has more than one endpoint.
\<close>

theorem cursor_advances_once_per_attempt:
  assumes run1: "perform_rpc urls (traced call) m1 a1 c = (r1, c1)"
    and run2: "perform_rpc urls (traced call) m2 a2 c1 = (r2, c2)"
  shows "\<exists>new1 new2.
    snd (network c1) = snd (network c) @ new1 \<and>
    snd (network c2) = snd (network c1) @ new2 \<and>
    server_cycle c1 = server_cycle c + length new1 \<and>
    server_cycle c2 = server_cycle c1 + length new2 \<and>
    map fst new1 = map (\<lambda>i. urls ! ((server_cycle c + i) mod length urls)) [0..<length new1] \<and>
    map fst new2 =
      map (\<lambda>i. urls ! ((server_cycle c + length new1 + i) mod length urls)) [0..<length new2] \<and>
    (length new1 = 1 \<longrightarrow>
      (server_cycle c1 mod length urls \<noteq> server_cycle c mod length urls) = (1 < length urls))"
proof -
  define at1 where "at1 = attempts urls call m1 a1 (length urls) (server_cycle c) (fst (network c))"
  define at2 where "at2 = attempts urls call m2 a2 (length urls) (server_cycle c1) (fst (network c1))"
  define new1 where "new1 = map (\<lambda>x. (fst x, fst (snd x))) at1"
  define new2 where "new2 = map (\<lambda>x. (fst x, fst (snd x))) at2"
  note f1 = perform_rpc_traced [OF run1, folded at1_def]
  note f2 = perform_rpc_traced [OF run2, folded at2_def]
  have l1: "length new1 = length at1" and l2: "length new2 = length at2"
    by (simp_all add: new1_def new2_def)
  have u1: "map fst new1 = map (\<lambda>i. urls ! ((server_cycle c + i) mod length urls)) [0..<length new1]"
    using attempts_urls [of urls call m1 a1 "length urls" "server_cycle c" "fst (network c)"]
    by (simp add: new1_def at1_def comp_def)
  have u2: "map fst new2 = map (\<lambda>i. urls ! ((server_cycle c1 + i) mod length urls)) [0..<length new2]"
    using attempts_urls [of urls call m2 a2 "length urls" "server_cycle c1" "fst (network c1)"]
    by (simp add: new2_def at2_def comp_def)
  have bound: "length new1 \<le> length urls"
    using attempts_length [of urls call m1 a1 "length urls" "server_cycle c" "fst (network c)"]
    by (simp add: l1 at1_def)
  have pos: "(server_cycle c1 mod length urls \<noteq> server_cycle c mod length urls) = (1 < length urls)"
    if one: "length new1 = 1"
  proof -
    from one bound have n: "0 < length urls" by (cases urls) auto
    from f1(2) one l1 have s: "server_cycle c1 = Suc (server_cycle c)" by simp
    show ?thesis
    proof (cases "length urls = 1")
      case True
      then show ?thesis by simp
    next
      case False
      with n have big: "1 < length urls" by (cases urls) auto
      have "Suc (server_cycle c) mod length urls \<noteq> server_cycle c mod length urls"
      proof
        assume "Suc (server_cycle c) mod length urls = server_cycle c mod length urls"
        then have "(Suc (server_cycle c) - server_cycle c) mod length urls = 0"
          by (metis diff_Suc_1' le_add2 mod_eq_dvd_iff_nat plus_1_eq_Suc dvd_imp_mod_0 diff_add_inverse2)
        with big show False by simp
      qed
      with big s show ?thesis by simp
    qed
  qed
  show ?thesis
    apply (rule exI [of _ new1], rule exI [of _ new2])
    using f1(1,2) f2(1,2) u1 u2 pos l1 l2
    by (simp add: new1_def [symmetric] new2_def [symmetric] add.assoc)
qed


theorem cursor_advances_once_per_attempt_witness:
  "server_cycle (snd (perform_rpc server_urls (traced second_up) ''list_topics'' []
      \<lparr>server_cycle = 1, printed = [], network = ((), [])\<rparr>)) mod length server_urls \<noteq>
     1 mod length server_urls \<and>
   snd (network (snd (perform_rpc server_urls (traced second_up) ''list_topics'' []
     (snd (perform_rpc server_urls (traced second_up) ''list_topics'' []
       \<lparr>server_cycle = 1, printed = [], network = ((), [])\<rparr>))))) =
     [(''http://localhost:8001'', Inr (PList [])),
      (''http://localhost:8000'', Inl ''[Errno 111] Connection refused''),
      (''http://localhost:8001'', Inr (PList []))]"
proof -
  let ?c = "\<lparr>server_cycle = 1, printed = [], network = ((), [])\<rparr> :: (unit \<times> (string \<times> (string + pyval)) list) client"
  let ?run1 = "perform_rpc server_urls (traced second_up) ''list_topics'' [] ?c"
  let ?run2 = "perform_rpc server_urls (traced second_up) ''list_topics'' [] (snd ?run1)"
  have r1: "?run1 = (fst ?run1, snd ?run1)" and r2: "?run2 = (fst ?run2, snd ?run2)" by simp_all
  have t1: "snd (network (snd ?run1)) = [(''http://localhost:8001'', Inr (PList []))]"
    by (simp add: perform_rpc_def server_urls_eval cycle_next_def traced_def second_up_def)
  have t2: "snd (network (snd ?run2)) =
     [(''http://localhost:8001'', Inr (PList [])),
      (''http://localhost:8000'', Inl ''[Errno 111] Connection refused''),
      (''http://localhost:8001'', Inr (PList []))]"
    by (simp add: perform_rpc_def server_urls_eval cycle_next_def traced_def second_up_def mod_Suc)
  from cursor_advances_once_per_attempt [OF r1 r2] obtain new1 new2 where
    n1: "snd (network (snd ?run1)) = snd (network ?c) @ new1"
    and pos: "length new1 = 1 \<longrightarrow>
      (server_cycle (snd ?run1) mod length server_urls \<noteq> server_cycle ?c mod length server_urls) =
      (1 < length server_urls)"
    by blast
  from n1 t1 have "length new1 = 1" by simp
  with pos have "server_cycle (snd ?run1) mod length server_urls \<noteq> 1 mod length server_urls"
    by (simp add: server_urls_eval)
  with t2 show ?thesis by simp
qed

subsection \<open>The result when no server answers\<close>

text \<open>
  Claim C1, as stated, fails: on the pool of the source, a call in which both servers refuse
  the connection and a call in which the first server answers \<open>None\<close> return the same value.
\<close>

theorem sentinel_equals_successful_None:
  "perform_rpc server_urls all_down ''ping'' [] (fresh ()) =
     (Inr PNone,
      \<lparr>server_cycle = 2,
        printed = [''Error contacting server http://localhost:8000: [Errno 111] Connection refused'',
                   ''Error contacting server http://localhost:8001: [Errno 111] Connection refused'',
                   ''All servers failed.''],
        network = ()\<rparr>) \<and>
   perform_rpc server_urls answers_none ''ping'' [] (fresh ()) =
     (Inr PNone, \<lparr>server_cycle = 1, printed = [], network = ()\<rparr>)"
  by (simp add: perform_rpc_def server_urls_eval cycle_next_def all_down_def answers_none_def
      fresh_def error_line_def all_failed_line_def)

text \<open>
  Claim C1, amended. When all attempts fail, \<open>perform_rpc\<close> returns \<open>None\<close>. A call in which
  an attempt succeeds with value \<open>v\<close> returns \<open>v\<close>, so the two results differ whenever \<open>v\<close>
  is not \<open>None\<close>, in particular when it is the empty list of \<open>get_notes\<close>.
\<close>

theorem sentinel_is_None:
  assumes fail: "\<And>url w. isl (fst (down url meth args w))"
    and run: "perform_rpc urls (traced up) meth' args' c' = (res, c'')"
    and new: "snd (network c'') = snd (network c') @ new"
    and ok: "(u, Inr v) \<in> set new"
  shows "fst (perform_rpc urls down meth args c) = Inr PNone \<and> res = Inr v \<and>
    (v \<noteq> PNone \<longrightarrow> res \<noteq> fst (perform_rpc urls down meth args c))"
proof -
  from fail have "\<forall>url w. isl (fst (down url meth args w))" by simp
  then have none: "fst (perform_rpc urls down meth args c) = Inr PNone"
    by (rule perform_rpc_all_fail)
  define at where "at = attempts urls up meth' args' (length urls) (server_cycle c') (fst (network c'))"
  note facts = perform_rpc_traced [OF run, folded at_def]
  from facts(1) new have new_at: "new = map (\<lambda>x. (fst x, fst (snd x))) at" by simp
  from ok obtain i where i: "i < length new" and at_i: "new ! i = (u, Inr v)"
    by (auto simp: in_set_conv_nth)
  from i new_at have i_at: "i < length at" by simp
  from at_i new_at i_at have ok_at: "fst (snd (at ! i)) = Inr v" by simp
  then have "\<not> isl (fst (snd (at ! i)))" by simp
  from attempts_success_last [OF i_at [unfolded at_def] this [unfolded at_def]]
  have "Suc i = length at" by (simp add: at_def)
  from outcome_of_success [OF i_at ok_at this] facts(3) have "res = Inr v" by simp
  with none show ?thesis by simp
qed

theorem sentinel_is_None_witness:
  "fst (perform_rpc server_urls all_down ''get_notes'' [PStr ''t''] (fresh ())) = Inr PNone \<and>
   fst (perform_rpc server_urls (traced second_up) ''get_notes'' [PStr ''t''] (fresh ((), []))) = Inr (PList []) \<and>
   fst (perform_rpc server_urls (traced second_up) ''get_notes'' [PStr ''t''] (fresh ((), []))) \<noteq>
   fst (perform_rpc server_urls all_down ''get_notes'' [PStr ''t''] (fresh ()))"
proof -
  let ?run = "perform_rpc server_urls (traced second_up) ''get_notes'' [PStr ''t''] (fresh ((), []))"
  let ?new = "[(''http://localhost:8000'', Inl ''[Errno 111] Connection refused''),
      (''http://localhost:8001'', Inr (PList []))]"
  have f: "\<And>url w. isl (fst (all_down url ''get_notes'' [PStr ''t''] w))"
    by (simp add: all_down_def)
  have r: "?run = (fst ?run, snd ?run)" by simp
  have n: "snd (network (snd ?run)) = snd (network (fresh ((), []))) @ ?new"
    by (simp add: perform_rpc_def server_urls_eval cycle_next_def traced_def second_up_def fresh_def)
  have ok: "(''http://localhost:8001'', Inr (PList [])) \<in> set ?new" by simp
  from sentinel_is_None [where down = all_down and meth = "''get_notes''" and args = "[PStr ''t'']"
      and c = "fresh ()", OF f r n ok]
  show ?thesis by simp
qed

section \<open>Properties of the server\<close>

subsection \<open>The topic inside the path expression\<close>

lemma strftime_noon: "strftime noon = ''03/09/25 - 12:00:07''"
  by (simp add: strftime_def noon_def two_digits_def digit_def)

text \<open>
  Claim C8 at a failing input: \<open>add_note("it's", "x")\<close>, called without a time stamp on a
  server that has no file yet, does not return \<open>True\<close>: the topic is pasted into the path
  expression between apostrophes, and the path \<open>./topic[@name='it's']\<close> is rejected with
  \<open>SyntaxError\<close>. No note is stored.
\<close>

theorem add_note_apostrophe_raises:
  "add_note noon ''it's'' ''x'' None None =
    (Raises (SyntaxError ''invalid predicate''), Some (Element ''data'' [] None []))"
  by code_simp

text \<open>
  Claim C7 at a failing input: no topic is stored, and \<open>get_notes("it's")\<close> raises
  \<open>SyntaxError\<close> instead of returning the empty list.
\<close>

theorem get_notes_apostrophe_raises:
  "get_notes ''it's'' None =
    (Raises (SyntaxError ''invalid predicate''), Some (Element ''data'' [] None []))"
  by code_simp

text \<open>
  Claim C2 at a failing input: after \<open>add_note("t", "")\<close> on a server that has no file yet,
  \<open>get_notes("t")\<close> returns the time stamp with \<open>None\<close>, not with the empty text that was
  added: the empty text is written as an empty element, and the parser gives \<open>None\<close> for it.
\<close>

theorem empty_text_comes_back_as_None:
  "get_notes ''t'' (snd (add_note noon ''t'' [] None None)) =
    (Returns (PList [PList [PStr ''03/09/25 - 12:00:07'', PNone]]),
     Some (Element ''data'' [] None
       [Element ''topic'' [(''name'', ''t'')] None
         [Element ''note'' [(''name'', [])] None
           [Element ''text'' [] (Some []) [],
            Element ''timestamp'' [] (Some ''03/09/25 - 12:00:07'') []]]]))"
  by code_simp

text \<open>
  Claim C3 at a failing input: with the topic \<open>x'][@name='y\<close> the path becomes
  \<open>./topic[@name='x'][@name='y']\<close>, which no element satisfies, so each \<open>add_note\<close> makes a
  new topic element, and after two calls the store holds two topics of the same name.
\<close>

theorem same_topic_twice_two_topics:
  "fst (list_topics (snd (add_note noon ''x'][@name='y'' ''b'' None
      (snd (add_note noon ''x'][@name='y'' ''a'' None None))))) =
    Returns (PList [PStr ''x'][@name='y'', PStr ''x'][@name='y''])"
  by code_simp

subsection \<open>The tree that \<open>add_note\<close> writes\<close>

lemma at_pos_append:
  "at_pos root (p @ q) = (case at_pos root p of None \<Rightarrow> None | Some e \<Rightarrow> at_pos e q)"
  by (induction p arbitrary: root) auto

lemma select_positions:
  assumes "list_all (\<lambda>(p, e). at_pos root p = Some e) result"
  shows "list_all (\<lambda>(p, e). at_pos root p = Some e) (select st result)"
proof (cases st)
  case Self
  with assms show ?thesis by simp
next
  case (Child tg)
  have "at_pos root (p @ [i]) = Some c"
    if "(p, e) \<in> set result" and "(i, c) \<in> set (enumerate 0 (children e))" for p e i c
  proof -
    from assms that(1) have "at_pos root p = Some e" by (auto simp: list_all_iff)
    moreover from that(2) have "i < length (children e)" and "c = children e ! i"
      by (auto simp: in_set_enumerate_eq)
    ultimately show ?thesis by (simp add: at_pos_append)
  qed
  with Child show ?thesis by (auto simp: list_all_iff)
next
  case (AttrEq key v)
  with assms show ?thesis by (auto simp: list_all_iff)
qed

lemma foldl_select_positions:
  "list_all (\<lambda>(p, e). at_pos root p = Some e) result \<Longrightarrow>
   list_all (\<lambda>(p, e). at_pos root p = Some e) (foldl (\<lambda>result st. select st result) result sel)"
  by (induction sel arbitrary: result) (simp_all add: select_positions)

lemma ET_find_position:
  assumes "ET_find root path = Returns (Some (p, e))"
  shows "at_pos root p = Some e"
proof -
  from assms obtain result where r: "iterfind root path = Returns result"
    and hd: "result \<noteq> []" "hd result = (p, e)"
    by (auto simp: ET_find_def split: outcome.splits list.splits)
  from r obtain sel where "result = foldl (\<lambda>result st. select st result) [([], root)] sel"
    by (auto simp: iterfind_def Let_def split: if_splits outcome.splits)
  moreover have "list_all (\<lambda>(p, e). at_pos root p = Some e) [([], root)]" by simp
  ultimately have "list_all (\<lambda>(p, e). at_pos root p = Some e) result"
    using foldl_select_positions by blast
  with hd show ?thesis by (cases result) auto
qed

lemma at_pos_sub_element:
  "at_pos root p = Some e \<Longrightarrow>
   at_pos (sub_element p new root) p = Some (Element (tag e) (attrib e) (etext e) (children e @ [new]))"
proof (induction p arbitrary: root)
  case Nil
  then show ?case by (cases root) auto
next
  case (Cons i p)
  then show ?case by (cases root) (auto split: if_splits)
qed

lemma add_note_stores:
  assumes "add_note now topic body timestamp f = (Returns r, f')"
  shows "\<exists>written p el. f' = Some written \<and> at_pos written p = Some el \<and> children el \<noteq> [] \<and>
    last (children el) = note_element body (timestamp_or_now timestamp now)"
proof -
  from assms obtain root f1 where l: "load_tree f = (Inr root, f1)"
    by (auto simp: add_note_def split: prod.splits sum.splits)
  from assms l obtain found where fd: "ET_find root (topic_path topic) = Returns found"
    by (auto simp: add_note_def split: outcome.splits)
  let ?n = "note_element body (timestamp_or_now timestamp now)"
  show ?thesis
  proof (cases found)
    case None
    let ?t = "Element ''topic'' [(''name'', topic)] None []"
    let ?root1 = "sub_element [] ?t root"
    have "at_pos ?root1 [length (children root)] = Some ?t"
      by (cases root) simp
    from at_pos_sub_element [OF this, of ?n]
    have "at_pos (sub_element [length (children root)] ?n ?root1) [length (children root)] =
        Some (Element ''topic'' [(''name'', topic)] None [?n])" by simp
    moreover from assms l fd None
    have "f' = Some (sub_element [length (children root)] ?n ?root1)"
      by (simp add: add_note_def)
    ultimately show ?thesis by (intro exI conjI) (assumption, assumption, simp_all)
  next
    case (Some pe)
    obtain p e where pe: "pe = (p, e)" by (cases pe)
    from fd Some pe have "at_pos root p = Some e" by (intro ET_find_position) simp
    from at_pos_sub_element [OF this, of ?n]
    have "at_pos (sub_element p ?n root) p =
        Some (Element (tag e) (attrib e) (etext e) (children e @ [?n]))" .
    moreover from assms l fd Some pe have "f' = Some (sub_element p ?n root)"
      by (simp add: add_note_def)
    ultimately show ?thesis by (intro exI conjI) (assumption, assumption, simp_all)
  qed
qed

subsection \<open>The reference lookup\<close>

text \<open>
  Claim C9, as stated, fails: when the reference service cannot be reached, and when it
  answers with an error object instead of a search result, \<open>wiki_lookup\<close> raises.
\<close>

theorem wiki_lookup_propagates_faults:
  "wiki_lookup unreachable ''tea'' = Inl (RequestException ''Connection refused'') \<and>
   wiki_lookup error_object ''tea'' = Inl (KeyError ''3'')"
  by (simp add: wiki_lookup_def unreachable_def error_object_def decimal.simps digit_def)

text \<open>
  Claim C9, amended. An exception of the reference service leaves \<open>wiki_lookup\<close> as it is;
  so does the exception of \<open>resp[3]\<close> on a document that has no fourth component. An empty
  document gives the empty string. On a search result, a list of four components whose
  fourth is the list of URLs, \<open>wiki_lookup\<close> returns the first URL, or the empty string when
  there is none.
\<close>

theorem wiki_lookup_answers:
  "(service topic = Inl e \<longrightarrow> wiki_lookup service topic = Inl e) \<and>
   (service topic = Inr resp \<longrightarrow> \<not> truthy resp \<longrightarrow> wiki_lookup service topic = Inr (PStr [])) \<and>
   (service topic = Inr resp \<longrightarrow> truthy resp \<longrightarrow> getitem resp 3 = Inl e \<longrightarrow>
      wiki_lookup service topic = Inl e) \<and>
   (service topic = Inr (PList [q, names, descriptions, PList urls]) \<longrightarrow>
      wiki_lookup service topic = Inr (case urls of [] \<Rightarrow> PStr [] | url # _ \<Rightarrow> url))"
  by (cases urls) (simp_all add: wiki_lookup_def)

theorem wiki_lookup_answers_witness:
  "wiki_lookup opensearch ''tea'' = Inr (PStr ''https://en.wikipedia.org/wiki/Tea'') \<and>
   wiki_lookup unreachable ''tea'' = Inl (RequestException ''Connection refused'')"
proof -
  have a: "opensearch ''tea'' = Inr (PList [PStr ''tea'', PList [PStr ''Tea''], PList [PStr []],
      PList [PStr ''https://en.wikipedia.org/wiki/Tea'']])"
    by (simp add: opensearch_def)
  have b: "unreachable ''tea'' = Inl (RequestException ''Connection refused'')"
    by (simp add: unreachable_def)
  from wiki_lookup_answers [where service = opensearch and topic = "''tea''"
      and urls = "[PStr ''https://en.wikipedia.org/wiki/Tea'']"] a
    wiki_lookup_answers [where service = unreachable and topic = "''tea''"
      and e = "RequestException ''Connection refused''"] b
  show ?thesis by simp
qed

subsection \<open>Topics without an apostrophe\<close>

text \<open>
  When the topic holds no apostrophe, the path has the nine tokens that it is meant to have,
  and \<open>find\<close> gives the first topic element of that name.
\<close>

lemma takeWhile_upto: "q \<notin> set xs \<Longrightarrow> takeWhile (\<lambda>x. x \<noteq> q) (xs @ q # ys) = xs"
  by (induction xs) auto

lemma dropWhile_upto: "q \<notin> set xs \<Longrightarrow> dropWhile (\<lambda>x. x \<noteq> q) (xs @ q # ys) = q # ys"
  by (induction xs) auto

lemma re_findall_step:
  "match_here (c # s) = Some (t, r) \<Longrightarrow> re_findall (c # s) = t # re_findall r"
  by (subst re_findall.simps) simp

lemma re_findall_Nil: "re_findall [] = []"
  by (subst re_findall.simps) simp

lemma quoted_topic:
  "apostrophe \<notin> set topic \<Longrightarrow>
   quoted apostrophe (apostrophe # topic @ apostrophe # rest) =
     Some ((apostrophe # topic @ [apostrophe], []), rest)"
  by (simp add: quoted_def takeWhile_upto dropWhile_upto)

lemma match_quoted_topic:
  "apostrophe \<notin> set topic \<Longrightarrow>
   match_here (apostrophe # topic @ apostrophe # rest) =
     Some ((apostrophe # topic @ [apostrophe], []), rest)"
  by (simp add: match_here_def first_of_def quoted_topic)

lemmas lexer_defs = match_here_def first_of_def quoted_def literal_def starts_def braced_name_def
  plain_name_def name_char_def is_space_def apostrophe_def

lemma m1: "match_here (CHR ''.'' # CHR ''/'' # s) = Some ((''.'', []), CHR ''/'' # s)"
  by (simp add: lexer_defs)

lemma m2: "match_here (CHR ''/'' # CHR ''t'' # s) = Some ((''/'', []), CHR ''t'' # s)"
  by (simp add: lexer_defs)

lemma m3: "match_here (''topic['' @ s) = Some (([], ''topic''), CHR ''['' # s)"
  by (simp add: lexer_defs)

lemma m4: "match_here (CHR ''['' # s) = Some ((''['', []), s)"
  by (simp add: lexer_defs)

lemma m5: "match_here (CHR ''@'' # s) = Some ((''@'', []), s)"
  by (simp add: lexer_defs)

lemma m6: "match_here (''name='' @ s) = Some (([], ''name''), CHR ''='' # s)"
  by (simp add: lexer_defs)

lemma m7: "match_here (CHR ''='' # s) = Some ((''='', []), s)"
  by (simp add: lexer_defs)

lemma m9: "match_here '']'' = Some (('']'', []), [])"
  by (simp add: lexer_defs)

lemma re_findall_topic_path:
  assumes "apostrophe \<notin> set topic"
  shows "re_findall (topic_path topic) =
    [(''.'', []), (''/'', []), ([], ''topic''), (''['', []), (''@'', []), ([], ''name''),
     (''='', []), (apostrophe # topic @ [apostrophe], []), ('']'', [])]"
proof -
  have "re_findall (topic_path topic) =
      (''.'', []) # re_findall (''/topic[@name='' @ apostrophe # topic @ apostrophe # '']'')"
    unfolding topic_path_def using re_findall_step [OF m1] by simp
  also have "re_findall (''/topic[@name='' @ apostrophe # topic @ apostrophe # '']'') =
      (''/'', []) # re_findall (''topic[@name='' @ apostrophe # topic @ apostrophe # '']'')"
    using re_findall_step [OF m2] by simp
  also have "re_findall (''topic[@name='' @ apostrophe # topic @ apostrophe # '']'') =
      ([], ''topic'') # re_findall (''[@name='' @ apostrophe # topic @ apostrophe # '']'')"
    using re_findall_step [of "CHR ''t''" "''opic[@name='' @ apostrophe # topic @ apostrophe # '']''"]
      m3 [of "''@name='' @ apostrophe # topic @ apostrophe # '']''"] by simp
  also have "re_findall (''[@name='' @ apostrophe # topic @ apostrophe # '']'') =
      (''['', []) # re_findall (''@name='' @ apostrophe # topic @ apostrophe # '']'')"
    using re_findall_step [OF m4] by simp
  also have "re_findall (''@name='' @ apostrophe # topic @ apostrophe # '']'') =
      (''@'', []) # re_findall (''name='' @ apostrophe # topic @ apostrophe # '']'')"
    using re_findall_step [OF m5] by simp
  also have "re_findall (''name='' @ apostrophe # topic @ apostrophe # '']'') =
      ([], ''name'') # re_findall (''='' @ apostrophe # topic @ apostrophe # '']'')"
    using re_findall_step [of "CHR ''n''" "''ame='' @ apostrophe # topic @ apostrophe # '']''"]
      m6 [of "apostrophe # topic @ apostrophe # '']''"] by simp
  also have "re_findall (''='' @ apostrophe # topic @ apostrophe # '']'') =
      (''='', []) # re_findall (apostrophe # topic @ apostrophe # '']'')"
    using re_findall_step [OF m7] by simp
  also have "re_findall (apostrophe # topic @ apostrophe # '']'') =
      (apostrophe # topic @ [apostrophe], []) # re_findall '']''"
    using re_findall_step [OF match_quoted_topic [OF assms]] by simp
  also have "re_findall '']'' = [('']'', [])]"
    using re_findall_step [of "CHR '']''" "[]"] m9 re_findall_Nil by simp
  finally show ?thesis by simp
qed


lemma xpath_tokenizer_topic_path:
  assumes "apostrophe \<notin> set topic"
  shows "xpath_tokenizer (topic_path topic) =
    map Inr [(''.'', []), (''/'', []), ([], ''topic''), (''['', []), (''@'', []), ([], ''name''),
     (''='', []), (apostrophe # topic @ [apostrophe], []), ('']'', [])]"
  by (simp add: xpath_tokenizer_def re_findall_topic_path [OF assms])

lemma compile_topic_path:
  assumes "apostrophe \<notin> set topic"
  shows "compile StepToken (xpath_tokenizer (topic_path topic)) =
    Returns [Self, Child ''topic'', AttrEq ''name'' topic]"
  by (simp add: xpath_tokenizer_topic_path [OF assms] prepend_def prepare_child_def
      is_wildcard_tag_def predicate_step_def apostrophe_def)

lemma select_topic_children:
  "select (AttrEq ''name'' topic) (select (Child ''topic'') [([], root)]) =
    map (\<lambda>(i, c). ([i], c)) (topic_children root topic)"
  by (simp add: topic_children_def filter_map comp_def case_prod_unfold)

lemma iterfind_topic_path:
  assumes "apostrophe \<notin> set topic"
  shows "iterfind root (topic_path topic) =
    Returns (map (\<lambda>(i, c). ([i], c)) (topic_children root topic))"
proof -
  have l: "last (topic_path topic) = CHR '']''" and n: "topic_path topic \<noteq> []"
    and t: "take 1 (topic_path topic) = ''.''"
    by (simp_all add: topic_path_def)
  show ?thesis
    unfolding iterfind_def Let_def
    using l n t compile_topic_path [OF assms] xpath_tokenizer_topic_path [OF assms]
      select_topic_children [of topic root]
    by simp
qed

lemma ET_find_topic_path:
  assumes "apostrophe \<notin> set topic"
  shows "ET_find root (topic_path topic) =
    Returns (case topic_children root topic of [] \<Rightarrow> None | (i, c) # _ \<Rightarrow> Some ([i], c))"
  by (simp add: ET_find_def iterfind_topic_path [OF assms] split: list.splits)

lemma load_tree_twice:
  "load_tree f = (Inr root, f') \<Longrightarrow> load_tree f' = (Inr root, f')"
  by (auto simp: load_tree_def split: option.splits)

lemma get_notes_unknown_topic:
  assumes "apostrophe \<notin> set topic" and "load_tree f = (Inr root, f')"
    and "topic_children root topic = []"
  shows "get_notes topic f = (Returns (PList []), f') \<and> load_tree f' = (Inr root, f')"
  using assms by (simp add: get_notes_def ET_find_topic_path load_tree_twice)

lemma add_note_returns_True:
  assumes "apostrophe \<notin> set topic" and "load_tree f = (Inr root, f')"
  shows "fst (add_note now topic body timestamp f) = Returns (PBool True)"
  using assms
  by (simp add: add_note_def ET_find_topic_path split: list.splits prod.splits)

text \<open>What \<open>add_note\<close> writes, for a topic without an apostrophe.\<close>

lemma add_note_written:
  assumes "apostrophe \<notin> set topic" and "load_tree f = (Inr root, f')"
  shows "snd (add_note now topic body timestamp f) =
    Some (case topic_children root topic of
      [] \<Rightarrow> sub_element [length (children root)] (note_element body (timestamp_or_now timestamp now))
              (sub_element [] (Element ''topic'' [(''name'', topic)] None []) root)
    | (i, c) # _ \<Rightarrow> sub_element [i] (note_element body (timestamp_or_now timestamp now)) root)"
  using assms
  by (simp add: add_note_def ET_find_topic_path split: list.splits prod.splits)

lemma topic_children_index:
  assumes "topic_children root topic = (i, c) # rest"
  shows "i < length (children root) \<and> children root ! i = c \<and> tag c = ''topic'' \<and>
    map_of (attrib c) ''name'' = Some topic"
proof -
  from assms have "(i, c) \<in> set (topic_children root topic)" by simp
  then show ?thesis by (auto simp: topic_children_def in_set_enumerate_eq)
qed

lemma topic_children_Nil:
  "topic_children root topic = [] \<Longrightarrow> Some topic \<notin> set (topic_name_list root)"
proof
  assume e: "topic_children root topic = []" and "Some topic \<in> set (topic_name_list root)"
  then obtain c where c: "c \<in> set (children root)" "tag c = ''topic''"
    "map_of (attrib c) ''name'' = Some topic"
    by (auto simp: topic_name_list_def findall_tag_def)
  then obtain i where "i < length (children root)" "children root ! i = c"
    by (auto simp: in_set_conv_nth)
  with c have "(i, c) \<in> set (topic_children root topic)"
    by (auto simp: topic_children_def in_set_enumerate_eq)
  with e show False by simp
qed

lemma topic_name_list_new_topic:
  "topic_name_list (sub_element [length (children root)] n
      (sub_element [] (Element ''topic'' [(''name'', topic)] None []) root)) =
    topic_name_list root @ [Some topic]"
  by (cases root) (simp add: topic_name_list_def findall_tag_def nth_append)

lemma topic_name_list_same_topic:
  assumes "i < length (children root)"
  shows "topic_name_list (sub_element [i] n root) = topic_name_list root"
proof (cases root)
  case (Element t a x cs)
  obtain t' a' x' cs' where c: "cs ! i = Element t' a' x' cs'" by (cases "cs ! i")
  have "map (\<lambda>c. (tag c, attrib c)) (cs[i := Element t' a' x' (cs' @ [n])]) =
      map (\<lambda>c. (tag c, attrib c)) cs"
    using assms Element c
    by (intro nth_equalityI) (auto simp: nth_list_update)
  then have "map (\<lambda>c. map_of (attrib c) ''name'')
        (filter (\<lambda>c. tag c = ''topic'') (cs[i := Element t' a' x' (cs' @ [n])])) =
      map (\<lambda>c. map_of (attrib c) ''name'') (filter (\<lambda>c. tag c = ''topic'') cs)"
  proof (induction cs arbitrary: i)
    case Nil
    then show ?case by simp
  next
    case (Cons d ds)
    then show ?case by (cases i) auto
  qed
  with Element c show ?thesis by (simp add: topic_name_list_def findall_tag_def)
qed

text \<open>
  For topics without an apostrophe the names of the topics stay distinct, and a second note
  under a name goes to the topic that is there.
\<close>

lemma add_note_names:
  assumes "apostrophe \<notin> set topic" and "load_tree f = (Inr root, f')"
    and "snd (add_note now topic body timestamp f) = Some written"
  shows "topic_name_list written =
    (if Some topic \<in> set (topic_name_list root) then topic_name_list root
     else topic_name_list root @ [Some topic])"
proof (cases "topic_children root topic")
  case Nil
  with add_note_written [OF assms(1,2), of now body timestamp] assms(3)
    topic_children_Nil [OF Nil] topic_name_list_new_topic
  show ?thesis by simp
next
  case (Cons ic rest)
  obtain i c where ic: "ic = (i, c)" by (cases ic)
  from topic_children_index [OF Cons [unfolded ic]]
  have i: "i < length (children root)" and c: "children root ! i = c" "tag c = ''topic''"
    "map_of (attrib c) ''name'' = Some topic" by simp_all
  then have "c \<in> set (children root)" by (auto simp: in_set_conv_nth)
  with c have "Some topic \<in> set (topic_name_list root)"
    by (force simp: topic_name_list_def findall_tag_def)
  with add_note_written [OF assms(1,2), of now body timestamp] assms(3) Cons ic
    topic_name_list_same_topic [OF i]
  show ?thesis by simp
qed

lemma add_note_names_distinct:
  assumes "apostrophe \<notin> set topic" and "load_tree f = (Inr root, f')"
    and "snd (add_note now topic body timestamp f) = Some written"
    and "distinct (topic_name_list root)"
  shows "distinct (topic_name_list written)"
  using add_note_names [OF assms(1-3)] assms(4) by (simp split: if_splits)

subsection \<open>The handlers on a notebook\<close>

lemma newlines_id: "CHR 0x0D \<notin> set s \<Longrightarrow> newlines s = s"
  by (induction s rule: newlines.induct) auto

lemma note_element_clean:
  assumes "safe_text ts" and "safe_text body"
  shows "well_formed (note_element body ts) \<and> reparsed (note_element body ts) = note_element body ts"
proof -
  from assms(2) have "list_all xml_char (take 30 body)"
    by (auto simp: safe_text_def list_all_iff dest: in_set_takeD)
  with assms show ?thesis
    by (auto simp: note_element_def safe_text_def newlines_id)
qed

lemma topic_element_clean:
  assumes "list_all xml_char k"
    and "list_all (\<lambda>(ts, body). safe_text ts \<and> safe_text body) ns"
  shows "well_formed (topic_element (k, ns)) \<and> reparsed (topic_element (k, ns)) = topic_element (k, ns)"
  using assms
  by (auto simp: topic_element_def list_all_iff note_element_clean intro!: map_idI)

lemma store_tree_clean:
  assumes "clean_store st"
  shows "ET_parse (store_tree st) = Inr (store_tree st)"
proof -
  from assms have "well_formed (topic_element t) \<and> reparsed (topic_element t) = topic_element t"
    if "t \<in> set st" for t
    using that topic_element_clean [of "fst t" "snd t"]
    by (auto simp: clean_store_def list_all_iff)
  then show ?thesis
    by (auto simp: ET_parse_def store_tree_def list_all_iff intro!: map_idI)
qed


lemma first_index_less:
  "topic \<in> fst ` set st \<Longrightarrow> first_index st topic < length st \<and> fst (st ! first_index st topic) = topic"
  unfolding first_index_def
  by (induction st) auto

lemma topic_element_sel [simp]:
  "tag (topic_element t) = ''topic''" "map_of (attrib (topic_element t)) ''name'' = Some (fst t)"
  by (simp_all add: topic_element_def)

lemma filter_enumerate_absent:
  "topic \<notin> fst ` set st \<Longrightarrow>
   filter (\<lambda>(i, c). tag c = ''topic'' \<and> map_of (attrib c) ''name'' = Some topic)
      (enumerate k (map topic_element st)) = []"
  by (induction st arbitrary: k) auto

lemma filter_enumerate_present:
  "topic \<in> fst ` set st \<Longrightarrow>
   \<exists>rest. filter (\<lambda>(i, c). tag c = ''topic'' \<and> map_of (attrib c) ''name'' = Some topic)
      (enumerate k (map topic_element st)) =
     (k + first_index st topic, topic_element (st ! first_index st topic)) # rest"
proof (induction st arbitrary: k)
  case Nil
  then show ?case by simp
next
  case (Cons t st)
  show ?case
  proof (cases "fst t = topic")
    case True
    then show ?thesis by (simp add: first_index_def)
  next
    case False
    then have i: "first_index (t # st) topic = Suc (first_index st topic)"
      by (simp add: first_index_def)
    from False Cons.prems have "topic \<in> fst ` set st" by auto
    from Cons.IH [OF this, of "Suc k"] obtain rest where
      "filter (\<lambda>(i, c). tag c = ''topic'' \<and> map_of (attrib c) ''name'' = Some topic)
        (enumerate (Suc k) (map topic_element st)) =
       (Suc k + first_index st topic, topic_element (st ! first_index st topic)) # rest"
      by blast
    with False i show ?thesis by simp
  qed
qed

lemma topic_children_absent:
  "topic \<notin> fst ` set st \<Longrightarrow> topic_children (store_tree st) topic = []"
  unfolding topic_children_def store_tree_def
  using filter_enumerate_absent [of topic st 0] by simp

lemma topic_children_present:
  "topic \<in> fst ` set st \<Longrightarrow>
   \<exists>rest. topic_children (store_tree st) topic =
     (first_index st topic, topic_element (st ! first_index st topic)) # rest"
  unfolding topic_children_def store_tree_def
  using filter_enumerate_present [of topic st 0] by simp

lemma put_note_absent: "topic \<notin> fst ` set st \<Longrightarrow> put_note st topic n = st @ [(topic, [n])]"
  by (induction st) auto

lemma put_note_present:
  "topic \<in> fst ` set st \<Longrightarrow>
   put_note st topic n =
     st[first_index st topic := (topic, snd (st ! first_index st topic) @ [n])]"
proof (induction st)
  case Nil
  then show ?case by simp
next
  case (Cons t st)
  show ?case
  proof (cases "fst t = topic")
    case True
    then show ?thesis by (cases t) (simp add: first_index_def)
  next
    case False
    then have "first_index (t # st) topic = Suc (first_index st topic)"
      by (simp add: first_index_def)
    with False Cons show ?thesis by (cases t) auto
  qed
qed

lemma sub_element_topic:
  "sub_element [] (note_element body ts) (topic_element (k, ns)) = topic_element (k, ns @ [(ts, body)])"
  by (simp add: topic_element_def)

lemma store_tree_new_topic:
  "sub_element [length (children (store_tree st))] (note_element body ts)
     (sub_element [] (Element ''topic'' [(''name'', topic)] None []) (store_tree st)) =
   store_tree (st @ [(topic, [(ts, body)])])"
proof -
  have "(map topic_element st @ [Element ''topic'' [(''name'', topic)] None []])
      [length (map topic_element st) :=
        Element ''topic'' [(''name'', topic)] None [note_element body ts]] =
    map topic_element st @ [Element ''topic'' [(''name'', topic)] None [note_element body ts]]"
    by (rule list_update_length)
  then show ?thesis
    by (simp add: store_tree_def topic_element_def nth_append)
qed

lemma store_tree_old_topic:
  assumes "j < length st" and "fst (st ! j) = topic"
  shows "sub_element [j] (note_element body ts) (store_tree st) =
    store_tree (st[j := (topic, snd (st ! j) @ [(ts, body)])])"
proof -
  obtain k ns where t: "st ! j = (k, ns)" by (cases "st ! j")
  with assms(2) have k: "k = topic" by simp
  show ?thesis
    using assms(1) t k sub_element_topic [of body ts topic ns]
    by (simp add: store_tree_def map_update)
qed

text \<open>
  On a store whose strings are safe, \<open>add_note\<close> with a topic that has no apostrophe is
  \<open>put_note\<close>, and \<open>get_notes\<close> is \<open>notes_under\<close>.
\<close>

lemma add_note_put_note:
  assumes "apostrophe \<notin> set topic" and "clean_store st"
  shows "add_note now topic body timestamp (Some (store_tree st)) =
    (Returns (PBool True),
     Some (store_tree (put_note st topic (timestamp_or_now timestamp now, body))))"
proof -
  have l: "load_tree (Some (store_tree st)) = (Inr (store_tree st), Some (store_tree st))"
    by (simp add: load_tree_def store_tree_clean [OF assms(2)])
  let ?n = "(timestamp_or_now timestamp now, body)"
  have "snd (add_note now topic body timestamp (Some (store_tree st))) =
      Some (store_tree (put_note st topic ?n))"
  proof (cases "topic \<in> fst ` set st")
    case True
    from first_index_less [OF True]
    have j: "first_index st topic < length st" "fst (st ! first_index st topic) = topic"
      by simp_all
    from topic_children_present [OF True] obtain rest where
      "topic_children (store_tree st) topic =
        (first_index st topic, topic_element (st ! first_index st topic)) # rest" by blast
    with add_note_written [OF assms(1) l, of now body timestamp]
      store_tree_old_topic [OF j] put_note_present [OF True, of ?n]
    show ?thesis by simp
  next
    case False
    then have "topic_children (store_tree st) topic = []" by (rule topic_children_absent)
    with add_note_written [OF assms(1) l, of now body timestamp]
      store_tree_new_topic [of st body "timestamp_or_now timestamp now" topic]
      put_note_absent [OF False, of ?n]
    show ?thesis by simp
  qed
  with add_note_returns_True [OF assms(1) l, of now body timestamp] show ?thesis
    by (cases "add_note now topic body timestamp (Some (store_tree st))") simp
qed


lemma map_of_first_index:
  "topic \<in> fst ` set st \<Longrightarrow> map_of st topic = Some (snd (st ! first_index st topic))"
proof (induction st)
  case Nil
  then show ?case by simp
next
  case (Cons t st)
  show ?case
  proof (cases "fst t = topic")
    case True
    then show ?thesis by (cases t) (simp add: first_index_def)
  next
    case False
    then have "first_index (t # st) topic = Suc (first_index st topic)"
      by (simp add: first_index_def)
    with False Cons show ?thesis by (cases t) auto
  qed
qed

lemma notes_under_absent: "topic \<notin> fst ` set st \<Longrightarrow> notes_under st topic = []"
proof -
  assume "topic \<notin> fst ` set st"
  then have "map_of st topic = None" by (simp add: map_of_eq_None_iff)
  then show ?thesis by (simp add: notes_under_def)
qed

lemma child_text_note_element [simp]:
  "child_text (note_element body ts) ''timestamp'' = PStr ts"
  "child_text (note_element body ts) ''text'' = PStr body"
  by (simp_all add: child_text_def find_tag_def findall_tag_def note_element_def)

lemma findall_notes:
  "findall_tag (topic_element (k, ns)) ''note'' = map (\<lambda>(ts, body). note_element body ts) ns"
  by (induction ns) (auto simp: findall_tag_def topic_element_def note_element_def)

lemma get_notes_notes_under:
  assumes "apostrophe \<notin> set topic" and "clean_store st"
  shows "get_notes topic (Some (store_tree st)) =
    (Returns (PList (map (\<lambda>(ts, body). PList [PStr ts, PStr body]) (notes_under st topic))),
     Some (store_tree st))"
proof -
  have l: "load_tree (Some (store_tree st)) = (Inr (store_tree st), Some (store_tree st))"
    by (simp add: load_tree_def store_tree_clean [OF assms(2)])
  show ?thesis
  proof (cases "topic \<in> fst ` set st")
    case False
    with l assms(1) show ?thesis
      by (simp add: get_notes_def ET_find_topic_path topic_children_absent notes_under_absent)
  next
    case True
    from topic_children_present [OF True] obtain rest where tc:
      "topic_children (store_tree st) topic =
        (first_index st topic, topic_element (st ! first_index st topic)) # rest" by blast
    obtain k ns where t: "st ! first_index st topic = (k, ns)"
      by (cases "st ! first_index st topic")
    with map_of_first_index [OF True] have nu: "notes_under st topic = ns"
      by (simp add: notes_under_def)
    have ch: "children (topic_element (k, ns)) = map (\<lambda>(ts, body). note_element body ts) ns"
      by (simp add: topic_element_def)
    show ?thesis
      using l assms(1) tc t nu ch findall_notes [of k ns]
      by (simp add: get_notes_def ET_find_topic_path comp_def case_prod_unfold)
  qed
qed

lemma notes_under_put_note:
  "notes_under (put_note st t n) topic =
    (if t = topic then notes_under st topic @ [n] else notes_under st topic)"
  by (induction st) (auto simp: notes_under_def)

lemma digit_safe: "d < 10 \<Longrightarrow> xml_char (digit d) \<and> digit d \<noteq> CHR 0x0D"
proof -
  assume "d < 10"
  then have "d \<in> {0, 1, 2, 3, 4, 5, 6, 7, 8, 9}" by auto
  then show ?thesis by (auto simp: digit_def xml_char_def)
qed

lemma safe_text_chars:
  "safe_text s = (s \<noteq> [] \<and> list_all (\<lambda>c. xml_char c \<and> c \<noteq> CHR 0x0D) s)"
  by (auto simp: safe_text_def list_all_iff)

lemma two_digits_safe: "list_all (\<lambda>c. xml_char c \<and> c \<noteq> CHR 0x0D) (two_digits n)"
  using digit_safe [of "n div 10 mod 10"] digit_safe [of "n mod 10"]
  by (simp add: two_digits_def)

lemma strftime_safe: "safe_text (strftime now)"
proof -
  have sep: "xml_char CHR ''/''" "xml_char CHR '' ''" "xml_char CHR ''-''" "xml_char CHR '':''"
    by (simp_all add: xml_char_def)
  have ne: "two_digits n \<noteq> []" for n by (simp add: two_digits_def)
  show ?thesis
    unfolding safe_text_chars strftime_def
    by (simp add: two_digits_safe sep ne)
qed

subsection \<open>Round trip on safe input\<close>

lemma put_note_clean:
  assumes "clean_store st" and "list_all xml_char topic" and "safe_text ts" and "safe_text body"
  shows "clean_store (put_note st topic (ts, body))"
  using assms by (induction st) (auto simp: clean_store_def)

lemma timestamp_or_now_safe:
  "(case timestamp of None \<Rightarrow> True | Some ts \<Rightarrow> ts = [] \<or> safe_text ts) \<Longrightarrow>
   safe_text (timestamp_or_now timestamp now)"
  by (auto simp: timestamp_or_now_def strftime_safe split: option.splits)

lemma add_notes_put_notes:
  "list_all safe_call cs \<Longrightarrow> clean_store st \<Longrightarrow>
   add_notes cs (Some (store_tree st)) = Some (store_tree (put_notes cs st)) \<and>
   clean_store (put_notes cs st)"
proof (induction cs arbitrary: st)
  case Nil
  then show ?case by simp
next
  case (Cons c cs)
  obtain now topic body timestamp where c: "c = (now, topic, body, timestamp)"
    by (cases c) auto
  from Cons.prems(1) c have safe: "apostrophe \<notin> set topic" "list_all xml_char topic"
    "safe_text body" "safe_text (timestamp_or_now timestamp now)"
    by (auto simp: safe_call_def intro: timestamp_or_now_safe)
  from put_note_clean [OF Cons.prems(2) safe(2,4,3)]
  have cl: "clean_store (put_note st topic (timestamp_or_now timestamp now, body))" .
  from Cons.prems(1) have "list_all safe_call cs" by simp
  from Cons.IH [OF this cl] add_note_put_note [OF safe(1) Cons.prems(2), of now body timestamp] c
  show ?case by simp
qed

lemma notes_under_put_notes:
  "notes_under (put_notes cs st) topic = notes_under st topic @ pairs_for topic cs"
  by (induction cs arbitrary: st) (auto simp: notes_under_put_note pairs_for_def)

lemma store_tree_Nil: "store_tree [] = empty_root"
  by (simp add: store_tree_def empty_root_def)

lemma no_file_is_empty_root:
  "fst (get_notes topic None) = fst (get_notes topic (Some empty_root))"
  "add_note now topic body timestamp None = add_note now topic body timestamp (Some empty_root)"
  by (simp_all add: get_notes_def add_note_def load_tree_def)

lemma add_notes_no_file:
  "cs \<noteq> [] \<Longrightarrow> add_notes cs None = add_notes cs (Some empty_root)"
  by (cases cs) (auto simp: no_file_is_empty_root)

text \<open>
  The round trip on safe input: after any sequence of \<open>add_note\<close> calls whose topics have no
  apostrophe and whose texts are not empty and hold no carriage return and no other control
  character, \<open>get_notes\<close> returns the pairs added under the topic, in the order of the calls.
\<close>

lemma round_trip_safe:
  assumes "list_all safe_call cs" and "apostrophe \<notin> set topic"
  shows "fst (get_notes topic (add_notes cs None)) =
    Returns (PList (map (\<lambda>(ts, body). PList [PStr ts, PStr body]) (pairs_for topic cs)))"
proof -
  have cl: "clean_store []" by (simp add: clean_store_def)
  have "fst (get_notes topic (add_notes cs None)) =
      fst (get_notes topic (add_notes cs (Some (store_tree []))))"
    by (cases "cs = []") (simp_all add: no_file_is_empty_root store_tree_Nil add_notes_no_file)
  also from add_notes_put_notes [OF assms(1) cl]
  have "add_notes cs (Some (store_tree [])) = Some (store_tree (put_notes cs []))"
    and "clean_store (put_notes cs [])" by simp_all
  then have "fst (get_notes topic (add_notes cs (Some (store_tree [])))) =
      Returns (PList (map (\<lambda>(ts, body). PList [PStr ts, PStr body])
        (notes_under (put_notes cs []) topic)))"
    by (simp add: get_notes_notes_under [OF assms(2)])
  also have "notes_under (put_notes cs []) topic = pairs_for topic cs"
  proof -
    have "notes_under [] topic = []" by (simp add: notes_under_def)
    then show ?thesis by (simp add: notes_under_put_notes)
  qed
  finally show ?thesis .
qed

subsection \<open>Generated time stamps\<close>

lemma digit_is_digit: "d < 10 \<Longrightarrow> is_digit (digit d)"
proof -
  assume "d < 10"
  then have "d \<in> {0, 1, 2, 3, 4, 5, 6, 7, 8, 9}" by auto
  then show ?thesis by (auto simp: digit_def is_digit_def)
qed

text \<open>For a number below 100, \<open>two_digits\<close> is the decimal number padded with a zero.\<close>

lemma two_digits_decimal:
  assumes "n < 100"
  shows "two_digits n = (if n < 10 then CHR ''0'' # decimal n else decimal n)"
proof (cases "n < 10")
  case True
  then show ?thesis by (simp add: two_digits_def decimal.simps digit_def)
next
  case False
  with assms have "n div 10 < 10" by simp
  with False show ?thesis
    by (simp add: two_digits_def decimal.simps [of n] decimal.simps [of "n div 10"])
qed

lemma strftime_format: "timestamp_format (strftime now)"
proof -
  have "year now mod 100 < 100" by simp
  then have "year now mod 100 div 10 < 10" by arith
  then have y: "is_digit (digit (year now mod 100 div 10))" by (rule digit_is_digit)
  have d: "is_digit (digit (n div 10 mod 10))" "is_digit (digit (n mod 10))" for n
    by (simp_all add: digit_is_digit)
  show ?thesis
    by (simp add: timestamp_format_def strftime_def two_digits_def d y)
qed

text \<open>
  Without a time stamp, and with a topic that has no apostrophe, \<open>add_note\<close> on a file that
  parses returns \<open>True\<close>, and the note written holds the clock's reading in the format
  \<open>MM/DD/YY - HH:MM:SS\<close>.
\<close>

lemma add_note_generated_timestamp:
  assumes "apostrophe \<notin> set topic" and "load_tree f = (Inr root, f1)"
  shows "\<exists>written p el. add_note now topic body None f = (Returns (PBool True), Some written) \<and>
    at_pos written p = Some el \<and> children el \<noteq> [] \<and>
    last (children el) = note_element body (strftime now) \<and> timestamp_format (strftime now)"
proof -
  obtain r f' where a: "add_note now topic body None f = (r, f')"
    by (cases "add_note now topic body None f")
  with add_note_returns_True [OF assms, of now body None] have r: "r = Returns (PBool True)"
    by simp
  from add_note_stores [of now topic body None f "PBool True" f'] a r
  obtain written p el where "f' = Some written" "at_pos written p = Some el" "children el \<noteq> []"
    "last (children el) = note_element body (strftime now)"
    by (auto simp: timestamp_or_now_def)
  with a r strftime_format show ?thesis by blast
qed

subsection \<open>Time stamps read back from the file\<close>








lemma reparsed_sel [simp]:
  "tag (reparsed e) = tag e" "attrib (reparsed e) = attrib e"
  "children (reparsed e) = map reparsed (children e)"
  by (cases e; simp)+




















end
